theory Spec2Isabelle
  imports Main "HOL-Library.Multiset"
begin

section \<open>The async binary heap of \<^verbatim>\<open>binary_heap.ts\<close>\<close>

text \<open>
  The class \<^verbatim>\<open>BinaryHeap<T>\<close> keeps a private array \<^verbatim>\<open>#data\<close> and a private
  comparison function \<^verbatim>\<open>#compare\<close>. The comparison function returns a promise of a
  number; awaiting it either gives the number or raises what the function raised.
  A comparison is therefore a function into \<open>'e + int\<close>: \<open>Inr c\<close> is the number \<open>c\<close>,
  \<open>Inl e\<close> is a rejection with the value \<open>e\<close>. The code only ever tests a result with
  \<^verbatim>\<open>< 0\<close> and \<^verbatim>\<open><= 0\<close>, so the numbers are taken to be integers (a \<^verbatim>\<open>NaN\<close> answers
  false to both tests, as every positive number does).

  Every method that awaits a comparison mutates \<^verbatim>\<open>#data\<close> in place before and between
  the comparisons, so a method returns the heap as it has left it together with its
  outcome, also when the outcome is a rejection.
\<close>

subsection \<open>Module-level helpers\<close>

type_synonym ('a, 'e) comparator = "'a \<Rightarrow> 'a \<Rightarrow> 'e + int"

text \<open>
  \<^verbatim>\<open>swap(array, a, b)\<close>. Every call in the module passes two indexes below the
  array's length (\<open>0\<close> and \<open>length - 1\<close> of a non-empty array; a node and one of its
  children below \<open>size\<close>; a non-root index and its parent).
\<close>

definition swap :: "'a list \<Rightarrow> nat \<Rightarrow> nat \<Rightarrow> 'a list" where
  "swap array a b = (let temp = array ! a in (array[a := array ! b])[b := temp])"

text \<open>\<^verbatim>\<open>Math.floor((index + 1) / 2) - 1\<close>; it is \<open>-1\<close> at the root.\<close>

definition getParentIndex :: "int \<Rightarrow> int" where
  "getParentIndex index = (index + 1) div 2 - 1"

text \<open>
  Modelled from the spec: \<^verbatim>\<open>descend\<close> is imported from \<^verbatim>\<open>jsr:@std/data-structures\<close>
  and is not part of the repository; the spec calls it the descending natural order,
  under which the heap is a max-heap: the greater value compares negative.
\<close>

definition descend :: "'a::ord \<Rightarrow> 'a \<Rightarrow> int" where
  "descend a b = (if a < b then 1 else if b < a then - 1 else 0)"

text \<open>The default argument \<^verbatim>\<open>async (a, b) => descend(a, b)\<close>.\<close>

definition default_compare :: "('a::ord, 'e) comparator" where
  "default_compare a b = Inr (descend a b)"

subsection \<open>The class and its constructor\<close>

record ('a, 'e) BinaryHeap =
  data :: "'a list"
  compare :: "('a, 'e) comparator"

text \<open>
  What a caller can put in the constructor's argument position. JavaScript applies
  the default initialiser when the argument is absent, which is the same to it as
  \<^verbatim>\<open>undefined\<close>; \<open>Omitted\<close> stands for both. Every other value either answers
  \<^verbatim>\<open>"function"\<close> to \<^verbatim>\<open>typeof\<close> or does not.
\<close>

datatype js_value = JNull | JBoolean bool | JNumber int | JString string | JObject "(string \<times> js_value) list"

datatype ('a, 'e) compare_arg =
    Omitted
  | Callable "('a, 'e) comparator"
  | NonCallable js_value

datatype js_error = TypeError string

definition constructor :: "('a::ord, 'e) compare_arg \<Rightarrow> js_error + ('a, 'e) BinaryHeap" where
  "constructor arg =
     (let compare = (case arg of Omitted \<Rightarrow> Callable default_compare | _ \<Rightarrow> arg) in
      case compare of
        Callable f \<Rightarrow> Inr \<lparr>data = [], compare = f\<rparr>
      | _ \<Rightarrow> Inl (TypeError
          ''Cannot construct a BinaryHeap: the 'compare' parameter is not a function, did you mean to call BinaryHeap.from?''))"

text \<open>\<^verbatim>\<open>new BinaryHeap(f)\<close> for an \<open>f\<close> that is a function, as \<^verbatim>\<open>from\<close> calls it.\<close>

definition new_BinaryHeap :: "('a, 'e) comparator \<Rightarrow> ('a, 'e) BinaryHeap" where
  "new_BinaryHeap f = \<lparr>data = [], compare = f\<rparr>"

definition toArray :: "('a, 'e) BinaryHeap \<Rightarrow> 'a list" where
  "toArray h = data h"

definition length_heap :: "('a, 'e) BinaryHeap \<Rightarrow> nat" where
  "length_heap h = length (data h)"

text \<open>\<^verbatim>\<open>this.#data[0]\<close> is \<^verbatim>\<open>undefined\<close> on an empty array.\<close>

definition peek :: "('a, 'e) BinaryHeap \<Rightarrow> 'a option" where
  "peek h = (case data h of [] \<Rightarrow> None | x # _ \<Rightarrow> Some x)"

definition clear :: "('a, 'e) BinaryHeap \<Rightarrow> ('a, 'e) BinaryHeap" where
  "clear h = h\<lparr>data := []\<rparr>"

definition isEmpty :: "('a, 'e) BinaryHeap \<Rightarrow> bool" where
  "isEmpty h = (length (data h) = 0)"

subsection \<open>push\<close>

text \<open>
  The inner \<^verbatim>\<open>while (index !== 0)\<close> loop of \<^verbatim>\<open>push\<close>. The source keeps \<open>parent\<close>
  equal to \<open>getParentIndex(index)\<close> whenever it enters the loop body.
\<close>

function bubble_up :: "('a, 'e) comparator \<Rightarrow> 'a list \<Rightarrow> nat \<Rightarrow> 'a list \<times> ('e + unit)" where
  "bubble_up cmp array index =
     (if index \<noteq> 0 then
        (let parent = nat (getParentIndex (int index)) in
         case cmp (array ! index) (array ! parent) of
           Inl e \<Rightarrow> (array, Inl e)
         | Inr comparison \<Rightarrow>
             if comparison < 0 then bubble_up cmp (swap array parent index) parent
             else (array, Inr ()))
      else (array, Inr ()))"
  by pat_completeness auto
termination
  by (relation "measure (\<lambda>(cmp, array, index). index)") (auto simp: getParentIndex_def)

declare bubble_up.simps [simp del]

text \<open>One round of \<^verbatim>\<open>for (const value of values)\<close>: append, then bubble up.\<close>

definition push_value :: "('a, 'e) comparator \<Rightarrow> 'a list \<Rightarrow> 'a \<Rightarrow> 'a list \<times> ('e + unit)" where
  "push_value cmp array v = (let index = length array in bubble_up cmp (array @ [v]) index)"

fun push_values :: "('a, 'e) comparator \<Rightarrow> 'a list \<Rightarrow> 'a list \<Rightarrow> 'a list \<times> ('e + unit)" where
  "push_values cmp array [] = (array, Inr ())"
| "push_values cmp array (v # values) =
     (case push_value cmp array v of
        (array', Inl e) \<Rightarrow> (array', Inl e)
      | (array', Inr _) \<Rightarrow> push_values cmp array' values)"

definition push :: "('a, 'e) BinaryHeap \<Rightarrow> 'a list \<Rightarrow> ('a, 'e) BinaryHeap \<times> ('e + nat)" where
  "push h values =
     (case push_values (compare h) (data h) values of
        (array, Inl e) \<Rightarrow> (h\<lparr>data := array\<rparr>, Inl e)
      | (array, Inr _) \<Rightarrow> (h\<lparr>data := array\<rparr>, Inr (length array)))"

subsection \<open>pop\<close>

text \<open>
  The conditional expression that picks \<open>greatestChild\<close>: the comparison of the two
  children is only made when \<open>right < size\<close> (the source's \<open>size\<close> is written \<open>sz\<close>).
\<close>

definition greatestChild :: "('a, 'e) comparator \<Rightarrow> 'a list \<Rightarrow> nat \<Rightarrow> nat \<Rightarrow> nat \<Rightarrow> 'e + nat" where
  "greatestChild cmp array sz left right =
     (if right \<ge> sz then Inr left
      else case cmp (array ! left) (array ! right) of
             Inl e \<Rightarrow> Inl e
           | Inr c \<Rightarrow> if c \<le> 0 then Inr left else Inr right)"

text \<open>The \<^verbatim>\<open>while (left < size)\<close> loop of \<^verbatim>\<open>pop\<close>.\<close>

function bubble_down :: "('a, 'e) comparator \<Rightarrow> 'a list \<Rightarrow> nat \<Rightarrow> nat \<Rightarrow> 'a list \<times> ('e + unit)" where
  "bubble_down cmp array sz parent =
     (let right = 2 * (parent + 1); left = right - 1 in
      if left < sz then
        (case greatestChild cmp array sz left right of
           Inl e \<Rightarrow> (array, Inl e)
         | Inr g \<Rightarrow>
             (case cmp (array ! g) (array ! parent) of
                Inl e \<Rightarrow> (array, Inl e)
              | Inr c \<Rightarrow>
                  if c < 0 then bubble_down cmp (swap array parent g) sz g
                  else (array, Inr ())))
      else (array, Inr ()))"
  by pat_completeness auto
termination
  by (relation "measure (\<lambda>(cmp, array, sz, parent). sz - parent)")
     (auto simp: greatestChild_def split: if_splits sum.splits)

declare bubble_down.simps [simp del]

text \<open>\<^verbatim>\<open>Array.prototype.pop\<close>: removes and returns the last element.\<close>

definition array_pop :: "'a list \<Rightarrow> 'a list \<times> 'a option" where
  "array_pop array = (if array = [] then ([], None) else (butlast array, Some (last array)))"

definition pop :: "('a, 'e) BinaryHeap \<Rightarrow> ('a, 'e) BinaryHeap \<times> ('e + 'a option)" where
  "pop h =
     (if length (data h) = 0 then (h, Inr None)
      else
        (let sz = length (data h) - 1;
             swapped = swap (data h) 0 sz in
         case bubble_down (compare h) swapped sz 0 of
           (array, Inl e) \<Rightarrow> (h\<lparr>data := array\<rparr>, Inl e)
         | (array, Inr _) \<Rightarrow>
             (case array_pop array of (array', v) \<Rightarrow> (h\<lparr>data := array'\<rparr>, Inr v))))"

subsection \<open>drain and the async iterator\<close>

text \<open>
  \<^verbatim>\<open>while (!this.isEmpty()) { yield await this.pop() as T; }\<close>, run until the
  generator is done or rejects: the heap as it is left, the values yielded so far,
  and how the run ended. A yielded value is what \<^verbatim>\<open>pop\<close> resolved to.
\<close>

function drain :: "('a, 'e) BinaryHeap \<Rightarrow> ('a, 'e) BinaryHeap \<times> 'a option list \<times> ('e + unit)" where
  "drain h =
     (if \<not> isEmpty h then
        (case pop h of
           (h', Inl e) \<Rightarrow> (h', [], Inl e)
         | (h', Inr v) \<Rightarrow> (case drain h' of (h'', vs, r) \<Rightarrow> (h'', v # vs, r)))
      else (h, [], Inr ()))"
  by pat_completeness auto
termination
proof (relation "measure (\<lambda>h. length (data h))")
  show "wf (measure (\<lambda>h::('a, 'e) BinaryHeap. length (data h)))"
    by simp
next
  fix h h' :: "('a, 'e) BinaryHeap" and y :: "'e + 'a option" and v
  assume ne: "\<not> isEmpty h" and p: "(h', y) = pop h" "y = Inr v"
  have len: "length (fst (bubble_down cmp xs sz k)) = length xs"
    for cmp :: "('a, 'e) comparator" and xs sz k
  proof (induction cmp xs sz k rule: bubble_down.induct)
    case (1 cmp array sz parent)
    show ?case
      using "1.IH" by (subst bubble_down.simps) (auto simp: swap_def Let_def split: sum.splits)
  qed
  obtain array r where bd:
    "bubble_down (compare h) (swap (data h) 0 (length (data h) - 1)) (length (data h) - 1) 0 = (array, r)"
    by (cases "bubble_down (compare h) (swap (data h) 0 (length (data h) - 1)) (length (data h) - 1) 0")
  from len [of "compare h" "swap (data h) 0 (length (data h) - 1)" "length (data h) - 1" 0] bd
  have la: "length array = length (data h)"
    by (simp add: swap_def)
  from ne p bd la have "length (data h') < length (data h)"
    by (auto simp: pop_def isEmpty_def Let_def array_pop_def split: sum.splits if_splits)
  then show "(h', h) \<in> measure (\<lambda>h. length (data h))"
    by simp
qed

declare drain.simps [simp del]

text \<open>\<^verbatim>\<open>async *[Symbol.asyncIterator]() { yield* this.drain(); }\<close>\<close>

definition asyncIterator :: "('a, 'e) BinaryHeap \<Rightarrow> ('a, 'e) BinaryHeap \<times> 'a option list \<times> ('e + unit)" where
  "asyncIterator h = drain h"

subsection \<open>from\<close>

text \<open>
  The options bag. \<open>None\<close> in a field is a property that is absent or
  \<^verbatim>\<open>undefined\<close>; the bag itself may be absent. The source type \<open>T\<close> and the mapped
  type \<open>U\<close> are one type of values here, as they are to the running code, which
  passes the source heap's comparison function on to a heap of mapped values.
  The \<open>map\<close> function receives its receiver, the value and the index.
\<close>

record ('a, 'e, 'v) from_options =
  opt_compare :: "('a, 'e) comparator option"
  opt_map :: "('v option \<Rightarrow> 'a \<Rightarrow> nat \<Rightarrow> 'a) option"
  opt_thisArg :: "'v option"

datatype ('a, 'e) collection = Sequence "'a list" | Heap "('a, 'e) BinaryHeap"

text \<open>\<^verbatim>\<open>Array.from(items, mapFn, thisArg)\<close>\<close>

definition array_from :: "'a list \<Rightarrow> ('v option \<Rightarrow> 'a \<Rightarrow> nat \<Rightarrow> 'b) \<Rightarrow> 'v option \<Rightarrow> 'b list" where
  "array_from items mapFn thisArg = map (\<lambda>(v, k). mapFn thisArg v k) (zip items [0..<length items])"

definition from_collection ::
  "('a::ord, 'e) collection \<Rightarrow> ('a, 'e, 'v) from_options option \<Rightarrow> 'e + ('a, 'e) BinaryHeap" where
  "from_collection collection options =
     (let options_compare = (case options of None \<Rightarrow> None | Some opts \<Rightarrow> opt_compare opts);
          options_map = (case options of None \<Rightarrow> None | Some opts \<Rightarrow> opt_map opts);
          options_thisArg = (case options of None \<Rightarrow> None | Some opts \<Rightarrow> opt_thisArg opts);
          (result, unmappedValues) =
            (case collection of
               Heap source \<Rightarrow>
                 (let result = new_BinaryHeap
                        (case options_compare of Some f \<Rightarrow> f | None \<Rightarrow> compare source) in
                  if options_compare \<noteq> None \<or> options_map \<noteq> None then (result, data source)
                  else (result\<lparr>data := data source\<rparr>, []))
             | Sequence items \<Rightarrow>
                 ((case options_compare of
                     Some f \<Rightarrow> new_BinaryHeap f
                   | None \<Rightarrow> new_BinaryHeap default_compare), items));
          values = (case options_map of
                      Some mapFn \<Rightarrow> array_from unmappedValues mapFn options_thisArg
                    | None \<Rightarrow> unmappedValues)
      in case push result values of
           (h, Inl e) \<Rightarrow> Inl e
         | (h, Inr _) \<Rightarrow> Inr h)"

subsection \<open>Heaps and arrays as objects in memory\<close>

text \<open>
  Whether two heaps share their backing array cannot be seen on values. For that
  question arrays and heap objects live in a memory: \<^verbatim>\<open>#data\<close> holds the address of
  an array, array literals and \<^verbatim>\<open>Array.from\<close> allocate a fresh array, \<^verbatim>\<open>new\<close>
  allocates a fresh object, and the methods change the array that \<^verbatim>\<open>#data\<close> refers
  to in place. Addresses below \<open>lim\<close> are the allocated ones. The methods are the
  functions above, applied to what the object's fields refer to.
\<close>

record ('a, 'e) heap_object =
  data_ref :: nat
  compare_fn :: "('a, 'e) comparator"

record ('a, 'e) memory =
  arrays :: "nat \<Rightarrow> 'a list"
  objects :: "nat \<Rightarrow> ('a, 'e) heap_object"
  lim :: nat

definition alloc_array :: "('a, 'e) memory \<Rightarrow> 'a list \<Rightarrow> ('a, 'e) memory \<times> nat" where
  "alloc_array m xs = (m\<lparr>arrays := (arrays m)(lim m := xs), lim := lim m + 1\<rparr>, lim m)"

definition alloc_object :: "('a, 'e) memory \<Rightarrow> ('a, 'e) heap_object \<Rightarrow> ('a, 'e) memory \<times> nat" where
  "alloc_object m obj = (m\<lparr>objects := (objects m)(lim m := obj), lim := lim m + 1\<rparr>, lim m)"

text \<open>
  \<^verbatim>\<open>new BinaryHeap(f)\<close> for a function \<open>f\<close>: the field initialiser \<^verbatim>\<open>#data = []\<close>
  allocates the array, the constructor stores \<open>f\<close>.
\<close>

definition obj_new :: "('a, 'e) memory \<Rightarrow> ('a, 'e) comparator \<Rightarrow> ('a, 'e) memory \<times> nat" where
  "obj_new m f =
     (case alloc_array m [] of (m1, a) \<Rightarrow> alloc_object m1 \<lparr>data_ref = a, compare_fn = f\<rparr>)"

text \<open>The heap an object stands for: its fields, with \<^verbatim>\<open>#data\<close> dereferenced.\<close>

definition heap_value :: "('a, 'e) memory \<Rightarrow> nat \<Rightarrow> ('a, 'e) BinaryHeap" where
  "heap_value m this =
     \<lparr>data = arrays m (data_ref (objects m this)), compare = compare_fn (objects m this)\<rparr>"

text \<open>The array that \<^verbatim>\<open>this.#data\<close> refers to, changed in place.\<close>

definition write_data :: "('a, 'e) memory \<Rightarrow> nat \<Rightarrow> 'a list \<Rightarrow> ('a, 'e) memory" where
  "write_data m this xs = m\<lparr>arrays := (arrays m)(data_ref (objects m this) := xs)\<rparr>"

definition obj_push :: "('a, 'e) memory \<Rightarrow> nat \<Rightarrow> 'a list \<Rightarrow> ('a, 'e) memory \<times> ('e + nat)" where
  "obj_push m this values =
     (case push (heap_value m this) values of (h, r) \<Rightarrow> (write_data m this (data h), r))"

definition obj_pop :: "('a, 'e) memory \<Rightarrow> nat \<Rightarrow> ('a, 'e) memory \<times> ('e + 'a option)" where
  "obj_pop m this =
     (case pop (heap_value m this) of (h, r) \<Rightarrow> (write_data m this (data h), r))"

text \<open>\<^verbatim>\<open>this.#data = []\<close>: a fresh array; the old one is left as it is.\<close>

definition obj_clear :: "('a, 'e) memory \<Rightarrow> nat \<Rightarrow> ('a, 'e) memory" where
  "obj_clear m this =
     (case alloc_array m [] of
        (m1, a) \<Rightarrow> m1\<lparr>objects := (objects m1)(this := (objects m1 this)\<lparr>data_ref := a\<rparr>)\<rparr>)"

text \<open>
  \<^verbatim>\<open>BinaryHeap.from(collection, options)\<close> on the branch
  \<^verbatim>\<open>collection instanceof BinaryHeap\<close>. With an override \<open>unmappedValues\<close> is the
  source's own array, which is only read; without one \<^verbatim>\<open>Array.from\<close> copies it into
  a fresh array for the result and nothing is pushed.
\<close>

definition obj_from_heap ::
  "('a, 'e) memory \<Rightarrow> nat \<Rightarrow> ('a, 'e, 'v) from_options option \<Rightarrow> ('a, 'e) memory \<times> ('e + nat)" where
  "obj_from_heap m collection options =
     (let options_compare = (case options of None \<Rightarrow> None | Some opts \<Rightarrow> opt_compare opts);
          options_map = (case options of None \<Rightarrow> None | Some opts \<Rightarrow> opt_map opts);
          options_thisArg = (case options of None \<Rightarrow> None | Some opts \<Rightarrow> opt_thisArg opts);
          (m1, result) = obj_new m
             (case options_compare of Some f \<Rightarrow> f | None \<Rightarrow> compare_fn (objects m collection));
          (m2, unmappedValues) =
             (if options_compare \<noteq> None \<or> options_map \<noteq> None
              then (m1, arrays m1 (data_ref (objects m1 collection)))
              else (case alloc_array m1 (arrays m1 (data_ref (objects m1 collection))) of
                      (m', a) \<Rightarrow>
                        (m'\<lparr>objects := (objects m')(result := (objects m' result)\<lparr>data_ref := a\<rparr>)\<rparr>, [])));
          values = (case options_map of
                      Some mapFn \<Rightarrow> array_from unmappedValues mapFn options_thisArg
                    | None \<Rightarrow> unmappedValues)
      in case obj_push m2 result values of
           (m3, Inl e) \<Rightarrow> (m3, Inl e)
         | (m3, Inr _) \<Rightarrow> (m3, Inr result))"

text \<open>A caller that mutates one heap object: \<^verbatim>\<open>push\<close>, \<^verbatim>\<open>pop\<close> and \<^verbatim>\<open>clear\<close> calls.\<close>

datatype 'a mutation = DoPush "'a list" | DoPop | DoClear

fun mutate :: "('a, 'e) memory \<Rightarrow> nat \<Rightarrow> 'a mutation \<Rightarrow> ('a, 'e) memory" where
  "mutate m this (DoPush values) = fst (obj_push m this values)"
| "mutate m this DoPop = fst (obj_pop m this)"
| "mutate m this DoClear = obj_clear m this"

fun mutate_all :: "('a, 'e) memory \<Rightarrow> nat \<Rightarrow> 'a mutation list \<Rightarrow> ('a, 'e) memory" where
  "mutate_all m this [] = m"
| "mutate_all m this (x # xs) = mutate_all (mutate m this x) this xs"

text \<open>Two allocated heap objects that are not one object and do not share their array.\<close>

definition separate :: "('a, 'e) memory \<Rightarrow> nat \<Rightarrow> nat \<Rightarrow> bool" where
  "separate m a b =
     (a \<noteq> b \<and> a < lim m \<and> b < lim m \<and>
      data_ref (objects m a) < lim m \<and> data_ref (objects m b) < lim m \<and>
      data_ref (objects m a) \<noteq> data_ref (objects m b))"

text \<open>A memory with one heap object at address \<open>1\<close>, holding \<open>[5, 4, 3, 1, 2]\<close> at address \<open>0\<close>.\<close>

definition one_heap_memory :: "(int, unit) memory" where
  "one_heap_memory =
     \<lparr>arrays = (\<lambda>_. [])(0 := [5, 4, 3, 1, 2]),
      objects = (\<lambda>_. \<lparr>data_ref = 0, compare_fn = default_compare\<rparr>),
      lim = 2\<rparr>"

subsection \<open>Callers\<close>

text \<open>A caller that awaits a sequence of \<^verbatim>\<open>push\<close> and \<^verbatim>\<open>pop\<close> calls, one after the other.\<close>

datatype 'a operation = Push "'a list" | Pop

fun perform :: "('a, 'e) BinaryHeap \<Rightarrow> 'a operation list \<Rightarrow> ('a, 'e) BinaryHeap \<times> ('e + unit)" where
  "perform h [] = (h, Inr ())"
| "perform h (Push values # ops) =
     (case push h values of
        (h', Inl e) \<Rightarrow> (h', Inl e)
      | (h', Inr _) \<Rightarrow> perform h' ops)"
| "perform h (Pop # ops) =
     (case pop h of
        (h', Inl e) \<Rightarrow> (h', Inl e)
      | (h', Inr _) \<Rightarrow> perform h' ops)"


text \<open>A caller that awaits \<^verbatim>\<open>pop()\<close> \<open>n\<close> times and collects what it resolved to.\<close>

fun pop_times :: "('a, 'e) BinaryHeap \<Rightarrow> nat \<Rightarrow> ('a, 'e) BinaryHeap \<times> 'a option list \<times> ('e + unit)" where
  "pop_times h 0 = (h, [], Inr ())"
| "pop_times h (Suc n) =
     (case pop h of
        (h', Inl e) \<Rightarrow> (h', [], Inl e)
      | (h', Inr v) \<Rightarrow> (case pop_times h' n of (h'', vs, r) \<Rightarrow> (h'', v # vs, r)))"

subsection \<open>The heap property\<close>

text \<open>A comparison that yielded a strictly negative number.\<close>

definition negative :: "'e + int \<Rightarrow> bool" where
  "negative r = (case r of Inl _ \<Rightarrow> False | Inr c \<Rightarrow> c < 0)"

text \<open>
  No non-root element compares negative against the element at its parent index.
\<close>

definition heap_property :: "('a, 'e) comparator \<Rightarrow> 'a list \<Rightarrow> bool" where
  "heap_property cmp array =
     (\<forall>i \<in> {1..<length array}.
        \<not> negative (cmp (array ! i) (array ! nat (getParentIndex (int i)))))"

text \<open>
  A comparison function that orders the values consistently: "does not compare
  negative against" is transitive, and a result that is not positive in one
  direction is not negative in the other.
\<close>

definition consistent :: "('a, 'e) comparator \<Rightarrow> bool" where
  "consistent cmp =
     ((\<forall>a b c. \<not> negative (cmp a b) \<and> \<not> negative (cmp b c) \<longrightarrow> \<not> negative (cmp a c)) \<and>
      (\<forall>a b n. cmp a b = Inr n \<and> n \<le> 0 \<longrightarrow> \<not> negative (cmp b a)))"

subsection \<open>Invariants of the two loops\<close>

text \<open>
  The predicates below describe the array between two iterations of a loop; they
  are used in the proofs only. \<open>(i - 1) div 2\<close> is the parent index of a non-root
  index \<open>i\<close> as a natural number.
\<close>

definition not_better :: "('a, 'e) comparator \<Rightarrow> 'a \<Rightarrow> 'a \<Rightarrow> bool" where
  "not_better cmp x y = (\<not> negative (cmp x y))"

definition heap_upto :: "('a, 'e) comparator \<Rightarrow> 'a list \<Rightarrow> nat \<Rightarrow> bool" where
  "heap_upto cmp xs n = (\<forall>i. 0 < i \<and> i < n \<longrightarrow> not_better cmp (xs ! i) (xs ! ((i - 1) div 2)))"

definition up_inv :: "('a, 'e) comparator \<Rightarrow> 'a list \<Rightarrow> nat \<Rightarrow> bool" where
  "up_inv cmp xs k =
     ((\<forall>i. 0 < i \<and> i < length xs \<and> i \<noteq> k \<longrightarrow> not_better cmp (xs ! i) (xs ! ((i - 1) div 2))) \<and>
      (0 < k \<longrightarrow> (\<forall>c. 0 < c \<and> c < length xs \<and> (c - 1) div 2 = k \<longrightarrow>
                    not_better cmp (xs ! c) (xs ! ((k - 1) div 2)))))"

definition down_inv :: "('a, 'e) comparator \<Rightarrow> 'a list \<Rightarrow> nat \<Rightarrow> nat \<Rightarrow> bool" where
  "down_inv cmp xs n k =
     ((\<forall>i. 0 < i \<and> i < n \<and> (i - 1) div 2 \<noteq> k \<longrightarrow> not_better cmp (xs ! i) (xs ! ((i - 1) div 2))) \<and>
      (0 < k \<longrightarrow> (\<forall>c. 0 < c \<and> c < n \<and> (c - 1) div 2 = k \<longrightarrow>
                    not_better cmp (xs ! c) (xs ! ((k - 1) div 2)))))"

subsection \<open>Comparison functions used as concrete inputs\<close>

text \<open>\<^verbatim>\<open>async () => -1\<close>\<close>

definition always_negative :: "(int, unit) comparator" where
  "always_negative a b = Inr (- 1)"

text \<open>\<^verbatim>\<open>async (a, b) => { if (a === 4 && b === 3) throw "boom"; return descend(a, b); }\<close>\<close>

definition fails_on_4_3 :: "(int, string) comparator" where
  "fails_on_4_3 a b = (if a = 4 \<and> b = 3 then Inl ''boom'' else Inr (descend a b))"

text \<open>\<^verbatim>\<open>async (a, b) => (a === 3 && b === 0 ? -1 : 0)\<close>\<close>

definition prefers_3_to_0 :: "(int, unit) comparator" where
  "prefers_3_to_0 a b = (if a = 3 \<and> b = 0 then Inr (- 1) else Inr 0)"

text \<open>
  Modelled from the spec: \<^verbatim>\<open>ascend\<close>, which the tests import from
  \<^verbatim>\<open>jsr:@std/data-structures\<close>; the spec's ascending-order comparator, under which
  the smaller value compares negative.
\<close>

definition ascend :: "'a::ord \<Rightarrow> 'a \<Rightarrow> int" where
  "ascend a b = (if a < b then - 1 else if b < a then 1 else 0)"

text \<open>The tests' \<^verbatim>\<open>async (a, b) => ascend(a, b)\<close> on numbers.\<close>

definition ascend_compare :: "(int, unit) comparator" where
  "ascend_compare a b = Inr (ascend a b)"

text \<open>The tests' \<^verbatim>\<open>async (a, b) => ascend(a.x, b.x)\<close> on points \<open>(x, y)\<close>.\<close>

definition ascend_x :: "(int \<times> int, unit) comparator" where
  "ascend_x a b = Inr (ascend (fst a) (fst b))"

section \<open>Basic facts about the loops\<close>

lemma length_swap [simp]: "length (swap xs a b) = length xs"
  by (simp add: swap_def)

lemma mset_swap: "a < length xs \<Longrightarrow> b < length xs \<Longrightarrow> mset (swap xs a b) = mset xs"
  by (simp add: swap_def Let_def mset_swap)

lemma parent_nat: "0 < i \<Longrightarrow> nat (getParentIndex (int i)) = (i - 1) div 2"
  unfolding getParentIndex_def by (cases i) (auto simp: nat_div_distrib nat_add_distrib)


lemma length_bubble_down: "length (fst (bubble_down cmp xs sz k)) = length xs"
proof (induction cmp xs sz k rule: bubble_down.induct)
  case (1 cmp array sz parent)
  show ?case
    using "1.IH" by (subst bubble_down.simps) (auto simp: Let_def split: sum.splits)
qed




lemma pop_length:
  "\<not> isEmpty h \<Longrightarrow> snd (pop h) = Inr v \<Longrightarrow> length_heap (fst (pop h)) + 1 = length_heap h"
proof -
  assume ne: "\<not> isEmpty h" and a: "snd (pop h) = Inr v"
  let ?sz = "length (data h) - 1"
  obtain ys r where bd: "bubble_down (compare h) (swap (data h) 0 ?sz) ?sz 0 = (ys, r)"
    by (cases "bubble_down (compare h) (swap (data h) 0 ?sz) ?sz 0")
  from length_bubble_down [of "compare h" "swap (data h) 0 ?sz" ?sz 0] bd
  have ly: "length ys = length (data h)"
    by simp
  from ne a bd ly show ?thesis
    by (auto simp: pop_def isEmpty_def length_heap_def Let_def array_pop_def split: sum.splits if_splits)
qed

lemma greatestChild_range:
  "greatestChild cmp xs n l r = Inr g \<Longrightarrow> l < n \<Longrightarrow> (g = l \<or> g = r) \<and> g < n"
  by (auto simp: greatestChild_def split: if_splits sum.splits)

lemma bubble_down_unfold:
  "bubble_down cmp xs n k =
     (if 2 * k + 1 < n then
        (case greatestChild cmp xs n (2 * k + 1) (2 * k + 2) of
           Inl e \<Rightarrow> (xs, Inl e)
         | Inr g \<Rightarrow>
             (case cmp (xs ! g) (xs ! k) of
                Inl e \<Rightarrow> (xs, Inl e)
              | Inr c \<Rightarrow> if c < 0 then bubble_down cmp (swap xs k g) n g else (xs, Inr ())))
      else (xs, Inr ()))"
  by (subst bubble_down.simps) (simp add: Let_def)


lemma bubble_down_step:
  obtains (stop) "fst (bubble_down cmp xs n k) = xs"
  | (step) g m where "2 * k + 1 < n"
      "greatestChild cmp xs n (2 * k + 1) (2 * k + 2) = Inr g"
      "cmp (xs ! g) (xs ! k) = Inr m" "m < 0"
      "bubble_down cmp xs n k = bubble_down cmp (swap xs k g) n g"
  using bubble_down_unfold [of cmp xs n k]
  by (auto split: if_splits sum.splits)

section \<open>The heap property is kept by push and pop\<close>

lemma heap_property_upto: "heap_property cmp xs = heap_upto cmp xs (length xs)"
  unfolding heap_property_def heap_upto_def not_better_def
  by (auto simp: parent_nat)

lemma not_better_trans:
  "consistent cmp \<Longrightarrow> not_better cmp a b \<Longrightarrow> not_better cmp b c \<Longrightarrow> not_better cmp a c"
  unfolding consistent_def not_better_def by blast

lemma not_better_flip:
  "consistent cmp \<Longrightarrow> cmp a b = Inr n \<Longrightarrow> n \<le> 0 \<Longrightarrow> not_better cmp b a"
  unfolding consistent_def not_better_def by blast

lemma not_better_result: "cmp a b = Inr n \<Longrightarrow> 0 \<le> n \<Longrightarrow> not_better cmp a b"
  by (simp add: not_better_def negative_def)

lemma nth_swap:
  "a < length xs \<Longrightarrow> b < length xs \<Longrightarrow> j < length xs \<Longrightarrow>
   swap xs a b ! j = (if j = b then xs ! a else if j = a then xs ! b else xs ! j)"
  by (simp add: swap_def Let_def nth_list_update)

lemma up_inv_swap:
  assumes c: "consistent cmp" and inv: "up_inv cmp xs k" and k: "0 < k" "k < length xs"
    and r: "cmp (xs ! k) (xs ! ((k - 1) div 2)) = Inr n" "n < 0"
  shows "up_inv cmp (swap xs ((k - 1) div 2) k) ((k - 1) div 2)"
proof -
  let ?p = "(k - 1) div 2"
  let ?ys = "swap xs ?p k"
  from k have pk: "?p < k" by arith
  with k have pl: "?p < length xs" by simp
  have nth: "?ys ! j = (if j = k then xs ! ?p else if j = ?p then xs ! k else xs ! j)"
    if "j < length xs" for j
    using nth_swap [OF pl k(2) that] .
  from inv have old: "not_better cmp (xs ! i) (xs ! ((i - 1) div 2))"
    if "0 < i" "i < length xs" "i \<noteq> k" for i
    using that unfolding up_inv_def by blast
  from inv k have grand: "not_better cmp (xs ! c) (xs ! ?p)"
    if "0 < c" "c < length xs" "(c - 1) div 2 = k" for c
    using that unfolding up_inv_def by blast
  from r have flip: "not_better cmp (xs ! ?p) (xs ! k)"
    using not_better_flip [OF c r(1)] by simp
  have part1: "not_better cmp (?ys ! i) (?ys ! ((i - 1) div 2))"
    if i: "0 < i" "i < length xs" "i \<noteq> ?p" for i
  proof -
    let ?q = "(i - 1) div 2"
    from i have qi: "?q < i" by arith
    with i have ql: "?q < length xs" by simp
    show ?thesis
    proof (cases "i = k")
      case True
      with nth [OF i(2)] nth [OF ql] pk flip show ?thesis by simp
    next
      case ik: False
      with i nth [OF i(2)] have yi: "?ys ! i = xs ! i" by simp
      consider "?q = k" | "?q = ?p" "?q \<noteq> k" | "?q \<noteq> k" "?q \<noteq> ?p" by blast
      then show ?thesis
      proof cases
        case 1
        with nth [OF ql] have "?ys ! ?q = xs ! ?p" by simp
        with yi grand [OF i(1) i(2) 1] show ?thesis by simp
      next
        case 2
        with nth [OF ql] have "?ys ! ?q = xs ! k" by simp
        moreover from old [OF i(1) i(2) ik] 2 have "not_better cmp (xs ! i) (xs ! ?p)" by simp
        ultimately show ?thesis
          using yi not_better_trans [OF c _ flip] by simp
      next
        case 3
        with nth [OF ql] have "?ys ! ?q = xs ! ?q" by simp
        with yi old [OF i(1) i(2) ik] show ?thesis by simp
      qed
    qed
  qed
  have part2: "not_better cmp (?ys ! c) (?ys ! ((?p - 1) div 2))"
    if p0: "0 < ?p" and cc: "0 < c" "c < length xs" "(c - 1) div 2 = ?p" for c
  proof -
    let ?g = "(?p - 1) div 2"
    from p0 have gp: "?g < ?p" by arith
    with pl pk have gl: "?g < length xs" and gk: "?g \<noteq> k" by simp_all
    from nth [OF gl] gp gk have yg: "?ys ! ?g = xs ! ?g" by simp
    from pk pl p0 have pg: "not_better cmp (xs ! ?p) (xs ! ?g)"
      using old [of ?p] by simp
    show ?thesis
    proof (cases "c = k")
      case True
      with nth [OF cc(2)] yg pg show ?thesis by simp
    next
      case False
      moreover from cc have "c \<noteq> ?p" by arith
      ultimately have "?ys ! c = xs ! c" using nth [OF cc(2)] by simp
      moreover from old [OF cc(1) cc(2) False] cc(3) have "not_better cmp (xs ! c) (xs ! ?p)" by simp
      ultimately show ?thesis
        using yg not_better_trans [OF c _ pg] by simp
    qed
  qed
  show ?thesis
    unfolding up_inv_def using part1 part2 by simp
qed

lemma bubble_up_heap:
  "consistent cmp \<Longrightarrow> up_inv cmp xs k \<Longrightarrow> k < length xs \<Longrightarrow>
   bubble_up cmp xs k = (ys, Inr u) \<Longrightarrow> heap_upto cmp ys (length ys)"
proof (induction cmp xs k rule: bubble_up.induct)
  case (1 cmp array index)
  show ?case
  proof (cases "index = 0")
    case True
    with "1.prems"(4) have "ys = array"
      by (simp add: bubble_up.simps)
    with "1.prems"(2) True show ?thesis
      unfolding up_inv_def heap_upto_def by simp
  next
    case False
    let ?p = "(index - 1) div 2"
    from False have par: "nat (getParentIndex (int index)) = ?p"
      by (simp add: parent_nat)
    from "1.prems"(4) False par obtain n where n: "cmp (array ! index) (array ! ?p) = Inr n"
      by (subst (asm) bubble_up.simps) (auto simp: Let_def split: sum.splits)
    show ?thesis
    proof (cases "n < 0")
      case True
      from "1.prems"(4) False par n True
      have rec: "bubble_up cmp (swap array ?p index) ?p = (ys, Inr u)"
        by (subst (asm) bubble_up.simps) (simp add: Let_def)
      from False "1.prems"(3) have "?p < length (swap array ?p index)"
        by simp
      moreover from up_inv_swap [OF "1.prems"(1,2) _ "1.prems"(3) n True] False
      have "up_inv cmp (swap array ?p index) ?p" by simp
      ultimately show ?thesis
        using "1.IH" [OF False par [symmetric] _ True "1.prems"(1) _ _ ] rec n par
        by simp
    next
      case nn: False
      from "1.prems"(4) False par n nn have "ys = array"
        by (subst (asm) bubble_up.simps) (simp add: Let_def)
      moreover from n nn have "not_better cmp (array ! index) (array ! ?p)"
        by (simp add: not_better_result)
      ultimately show ?thesis
        using "1.prems"(2) unfolding up_inv_def heap_upto_def by metis
    qed
  qed
qed

lemma push_value_heap:
  assumes c: "consistent cmp" and h: "heap_upto cmp xs (length xs)"
    and r: "push_value cmp xs v = (ys, Inr u)"
  shows "heap_upto cmp ys (length ys)"
proof -
  have "up_inv cmp (xs @ [v]) (length xs)"
    unfolding up_inv_def
  proof (intro conjI allI impI)
    fix i
    assume i: "0 < i \<and> i < length (xs @ [v]) \<and> i \<noteq> length xs"
    then have "i < length xs" "(i - 1) div 2 < length xs" by auto
    with h i show "not_better cmp ((xs @ [v]) ! i) ((xs @ [v]) ! ((i - 1) div 2))"
      unfolding heap_upto_def by (simp add: nth_append)
  next
    fix c
    assume "0 < length xs" and "0 < c \<and> c < length (xs @ [v]) \<and> (c - 1) div 2 = length xs"
    then have False by auto
    then show "not_better cmp ((xs @ [v]) ! c) ((xs @ [v]) ! ((length xs - 1) div 2))" ..
  qed
  with bubble_up_heap [OF c _ _ r [unfolded push_value_def Let_def]] show ?thesis
    by simp
qed

lemma push_values_heap:
  "consistent cmp \<Longrightarrow> heap_upto cmp xs (length xs) \<Longrightarrow>
   push_values cmp xs vs = (ys, Inr u) \<Longrightarrow> heap_upto cmp ys (length ys)"
proof (induction vs arbitrary: xs)
  case Nil
  then show ?case by simp
next
  case (Cons v vs)
  obtain zs r where pv: "push_value cmp xs v = (zs, r)"
    by (cases "push_value cmp xs v")
  from Cons.prems(3) pv obtain u' where r: "r = Inr u'" and rest: "push_values cmp zs vs = (ys, Inr u)"
    by (auto split: sum.splits)
  from push_value_heap [OF Cons.prems(1,2)] pv r have "heap_upto cmp zs (length zs)"
    by simp
  from Cons.IH [OF Cons.prems(1) this rest] show ?case .
qed

lemma children: "0 < i \<Longrightarrow> ((i - 1) div 2 = k) = (i = 2 * k + 1 \<or> i = 2 * k + (2::nat))"
  by arith

lemma down_inv_leaf:
  assumes "down_inv cmp xs n k" "\<not> 2 * k + 1 < n"
  shows "heap_upto cmp xs n"
  unfolding heap_upto_def
proof (intro allI impI)
  fix i
  assume i: "0 < i \<and> i < n"
  with assms(2) have "(i - 1) div 2 \<noteq> k"
    by (auto simp: children)
  with assms(1) i show "not_better cmp (xs ! i) (xs ! ((i - 1) div 2))"
    unfolding down_inv_def by blast
qed

lemma not_better_refl: "consistent cmp \<Longrightarrow> not_better cmp a a"
proof (cases "cmp a a")
  case (Inl e)
  then show ?thesis by (simp add: not_better_def negative_def)
next
  case (Inr n)
  assume c: "consistent cmp"
  show ?thesis
  proof (cases "n \<le> 0")
    case True
    from not_better_flip [OF c Inr True] show ?thesis .
  next
    case False
    with Inr show ?thesis by (simp add: not_better_def negative_def)
  qed
qed

lemma greatestChild_best:
  assumes c: "consistent cmp" and g: "greatestChild cmp xs n l r = Inr g" and l: "l < n"
  shows "(g = l \<or> g = r) \<and> g < n \<and>
         (\<forall>i. (i = l \<or> i = r) \<and> i < n \<longrightarrow> not_better cmp (xs ! i) (xs ! g))"
proof (cases "r \<ge> n")
  case True
  with g have "g = l" by (simp add: greatestChild_def)
  with True l not_better_refl [OF c] show ?thesis by auto
next
  case False
  with g obtain m where m: "cmp (xs ! l) (xs ! r) = Inr m" and gm: "g = (if m \<le> 0 then l else r)"
    by (auto simp: greatestChild_def split: sum.splits if_splits)
  show ?thesis
  proof (cases "m \<le> 0")
    case True
    with not_better_flip [OF c m] have "not_better cmp (xs ! r) (xs ! l)" by simp
    with True gm l not_better_refl [OF c] show ?thesis by auto
  next
    case mpos: False
    with not_better_result [where cmp = cmp, OF m] have "not_better cmp (xs ! l) (xs ! r)" by simp
    with mpos gm False not_better_refl [OF c] show ?thesis by auto
  qed
qed

lemma down_inv_stop:
  assumes c: "consistent cmp" and inv: "down_inv cmp xs n k" and l: "2 * k + 1 < n"
    and g: "greatestChild cmp xs n (2 * k + 1) (2 * k + 2) = Inr g"
    and r: "cmp (xs ! g) (xs ! k) = Inr m" "\<not> m < 0"
  shows "heap_upto cmp xs n"
  unfolding heap_upto_def
proof (intro allI impI)
  fix i
  assume i: "0 < i \<and> i < n"
  from greatestChild_best [OF c g l]
  have best: "\<And>j. (j = 2 * k + 1 \<or> j = 2 * k + 2) \<Longrightarrow> j < n \<Longrightarrow> not_better cmp (xs ! j) (xs ! g)"
    by blast
  from r have gk: "not_better cmp (xs ! g) (xs ! k)"
    by (simp add: not_better_def negative_def)
  show "not_better cmp (xs ! i) (xs ! ((i - 1) div 2))"
  proof (cases "(i - 1) div 2 = k")
    case True
    with i have "i = 2 * k + 1 \<or> i = 2 * k + 2" by arith
    from best [OF this] i have "not_better cmp (xs ! i) (xs ! g)" by simp
    from not_better_trans [OF c this gk] True show ?thesis by simp
  next
    case False
    with inv i show ?thesis unfolding down_inv_def by blast
  qed
qed

lemma down_inv_swap:
  assumes c: "consistent cmp" and inv: "down_inv cmp xs n k" and l: "2 * k + 1 < n"
    and n: "n \<le> length xs"
    and g: "greatestChild cmp xs n (2 * k + 1) (2 * k + 2) = Inr g"
    and r: "cmp (xs ! g) (xs ! k) = Inr m" "m < 0"
  shows "down_inv cmp (swap xs k g) n g"
proof -
  let ?ys = "swap xs k g"
  from greatestChild_best [OF c g l]
  have gc: "g = 2 * k + 1 \<or> g = 2 * k + 2" and gn: "g < n"
    and best: "\<And>j. (j = 2 * k + 1 \<or> j = 2 * k + 2) \<Longrightarrow> j < n \<Longrightarrow> not_better cmp (xs ! j) (xs ! g)"
    by blast+
  from gc have kg: "k < g" and pg: "(g - 1) div 2 = k" by auto
  from kg gn n have kl: "k < length xs" and gl: "g < length xs" by simp_all
  have nth: "?ys ! j = (if j = g then xs ! k else if j = k then xs ! g else xs ! j)"
    if "j < length xs" for j
    using nth_swap [OF kl gl that] .
  from r have flip: "not_better cmp (xs ! k) (xs ! g)"
    using not_better_flip [OF c r(1)] by simp
  from inv have old: "not_better cmp (xs ! i) (xs ! ((i - 1) div 2))"
    if "0 < i" "i < n" "(i - 1) div 2 \<noteq> k" for i
    using that unfolding down_inv_def by blast
  have part1: "not_better cmp (?ys ! i) (?ys ! ((i - 1) div 2))"
    if i: "0 < i" "i < n" "(i - 1) div 2 \<noteq> g" for i
  proof -
    let ?q = "(i - 1) div 2"
    from i have qi: "?q < i" by arith
    with i n have il: "i < length xs" and ql: "?q < length xs" by simp_all
    consider "i = g" | "i = k" | "i \<noteq> g" "i \<noteq> k" "?q = k" | "i \<noteq> g" "i \<noteq> k" "?q \<noteq> k"
      by blast
    then show ?thesis
    proof cases
      case 1
      with nth [OF il] nth [OF ql] pg kg flip show ?thesis by simp
    next
      case 2
      with i have k0: "0 < k" by simp
      from 2 qi kg have "?q \<noteq> k" "?q \<noteq> g" by simp_all
      with nth [OF ql] have "?ys ! ?q = xs ! ?q" by simp
      moreover from 2 kg nth [OF il] have "?ys ! i = xs ! g" by simp
      moreover from inv k0 gc gn pg have "not_better cmp (xs ! g) (xs ! ((k - 1) div 2))"
        unfolding down_inv_def by auto
      ultimately show ?thesis using 2 by simp
    next
      case 3
      with i have "i = 2 * k + 1 \<or> i = 2 * k + 2" by arith
      from best [OF this i(2)] have "not_better cmp (xs ! i) (xs ! g)" .
      moreover from 3 nth [OF il] have "?ys ! i = xs ! i" by simp
      moreover from 3 kg nth [OF ql] have "?ys ! ?q = xs ! g" by simp
      ultimately show ?thesis by simp
    next
      case 4
      with i nth [OF il] nth [OF ql] have "?ys ! i = xs ! i" "?ys ! ?q = xs ! ?q" by simp_all
      with old [OF i(1) i(2) 4(3)] show ?thesis by simp
    qed
  qed
  have part2: "not_better cmp (?ys ! j) (?ys ! ((g - 1) div 2))"
    if j: "0 < j" "j < n" "(j - 1) div 2 = g" for j
  proof -
    from j have gj: "g < j" by arith
    with j n kg have jl: "j < length xs" and "j \<noteq> g" "j \<noteq> k" by simp_all
    with nth [OF jl] have "?ys ! j = xs ! j" by simp
    moreover from nth [OF kl] kg pg have "?ys ! ((g - 1) div 2) = xs ! g" by simp
    moreover from old [OF j(1) j(2)] j(3) kg have "not_better cmp (xs ! j) (xs ! g)" by simp
    ultimately show ?thesis by simp
  qed
  show ?thesis
    unfolding down_inv_def using part1 part2 by simp
qed

lemma bubble_down_heap:
  "consistent cmp \<Longrightarrow> down_inv cmp xs n k \<Longrightarrow> n \<le> length xs \<Longrightarrow>
   bubble_down cmp xs n k = (ys, Inr u) \<Longrightarrow> heap_upto cmp ys n"
proof (induction cmp xs n k rule: bubble_down.induct)
  case (1 cmp array sz parent)
  have lr: "2 * (parent + 1) - 1 = 2 * parent + 1" "2 * (parent + 1) = 2 * parent + 2"
    by simp_all
  show ?case
  proof (cases "2 * parent + 1 < sz")
    case False
    with "1.prems"(4) have "ys = array"
      by (subst (asm) bubble_down.simps) (simp add: Let_def)
    with down_inv_leaf [OF "1.prems"(2) False] show ?thesis by simp
  next
    case True
    from "1.prems"(4) True obtain g m
      where g: "greatestChild cmp array sz (2 * parent + 1) (2 * parent + 2) = Inr g"
        and m: "cmp (array ! g) (array ! parent) = Inr m"
      by (subst (asm) bubble_down.simps) (auto simp: Let_def split: sum.splits)
    show ?thesis
    proof (cases "m < 0")
      case neg: True
      from "1.prems"(4) True g m neg
      have rec: "bubble_down cmp (swap array parent g) sz g = (ys, Inr u)"
        by (subst (asm) bubble_down.simps) (simp add: Let_def)
      from down_inv_swap [OF "1.prems"(1,2) True "1.prems"(3) g m neg]
      have "down_inv cmp (swap array parent g) sz g" .
      with "1.IH" [OF refl refl _ _ m neg "1.prems"(1) _ _ rec] True g "1.prems"(3)
      show ?thesis by (simp add: lr)
    next
      case False
      from "1.prems"(4) True g m False have "ys = array"
        by (subst (asm) bubble_down.simps) (simp add: Let_def)
      with down_inv_stop [OF "1.prems"(1,2) True g m False] show ?thesis by simp
    qed
  qed
qed

lemma bubble_down_beyond:
  "n \<le> length xs \<Longrightarrow> n \<le> i \<Longrightarrow> i < length xs \<Longrightarrow> fst (bubble_down cmp xs n k) ! i = xs ! i"
proof (induction cmp xs n k rule: bubble_down.induct)
  case (1 cmp array sz parent)
  show ?case
  proof (cases rule: bubble_down_step [of cmp array sz parent])
    case stop
    then show ?thesis by simp
  next
    case (step g m)
    note l = step(1) and g = step(2) and m = step(3,4) and rec = step(5)
    from greatestChild_range [OF g l] have gr: "g < sz" "parent < g" by auto
    with "1.prems" have "swap array parent g ! i = array ! i"
      by (simp add: nth_swap)
    moreover from "1.IH" [OF refl refl _ _ m] l g "1.prems"
    have "fst (bubble_down cmp (swap array parent g) sz g) ! i = swap array parent g ! i"
      by simp
    ultimately show ?thesis using rec by simp
  qed
qed

lemma mset_bubble_down:
  "n \<le> length xs \<Longrightarrow> mset (fst (bubble_down cmp xs n k)) = mset xs"
proof (induction cmp xs n k rule: bubble_down.induct)
  case (1 cmp array sz parent)
  show ?case
  proof (cases rule: bubble_down_step [of cmp array sz parent])
    case stop
    then show ?thesis by simp
  next
    case (step g m)
    note l = step(1) and g = step(2) and m = step(3,4) and rec = step(5)
    from greatestChild_range [OF g l] have gr: "g < sz" "parent < g" by auto
    with "1.prems" have "mset (swap array parent g) = mset array"
      by (simp add: mset_swap)
    moreover from "1.IH" [OF refl refl _ _ m] l g "1.prems"
    have "mset (fst (bubble_down cmp (swap array parent g) sz g)) = mset (swap array parent g)"
      by simp
    ultimately show ?thesis using rec by simp
  qed
qed

lemma compare_pop [simp]: "compare (fst (pop h)) = compare h"
  by (auto simp: pop_def Let_def split: prod.splits sum.splits)

lemma compare_push [simp]: "compare (fst (push h vs)) = compare h"
  by (auto simp: push_def split: prod.splits sum.splits)

lemma down_inv_root:
  assumes h: "heap_upto cmp xs (length xs)" and ne: "xs \<noteq> []"
  shows "down_inv cmp (swap xs 0 (length xs - 1)) (length xs - 1) 0"
  unfolding down_inv_def
proof (intro conjI allI impI)
  fix i
  assume i: "0 < i \<and> i < length xs - 1 \<and> (i - 1) div 2 \<noteq> 0"
  then have q: "(i - 1) div 2 < i" by arith
  from ne have z: "0 < length xs" "length xs - 1 < length xs" by simp_all
  from i q have il: "i < length xs" "(i - 1) div 2 < length xs" by arith+
  from i q have "i \<noteq> length xs - 1" "i \<noteq> 0" "(i - 1) div 2 \<noteq> length xs - 1" "(i - 1) div 2 \<noteq> 0"
    by arith+
  with nth_swap [OF z il(1)] nth_swap [OF z il(2)]
  have "swap xs 0 (length xs - 1) ! i = xs ! i"
    "swap xs 0 (length xs - 1) ! ((i - 1) div 2) = xs ! ((i - 1) div 2)"
    by simp_all
  moreover from h i il(1) have "not_better cmp (xs ! i) (xs ! ((i - 1) div 2))"
    unfolding heap_upto_def by blast
  ultimately show "not_better cmp (swap xs 0 (length xs - 1) ! i) (swap xs 0 (length xs - 1) ! ((i - 1) div 2))"
    by simp
next
  fix c :: nat
  assume "(0::nat) < 0"
  then show "not_better cmp (swap xs 0 (length xs - 1) ! c) (swap xs 0 (length xs - 1) ! ((0 - 1) div 2))"
    by simp
qed

lemma pop_heap:
  assumes c: "consistent (compare h)" and hp: "heap_property (compare h) (data h)"
    and r: "pop h = (h', Inr v)"
  shows "heap_property (compare h') (data h')"
proof (cases "data h = []")
  case True
  with r hp show ?thesis by (simp add: pop_def)
next
  case False
  let ?sz = "length (data h) - 1"
  obtain ys w where bd: "bubble_down (compare h) (swap (data h) 0 ?sz) ?sz 0 = (ys, w)"
    by (cases "bubble_down (compare h) (swap (data h) 0 ?sz) ?sz 0")
  with r False obtain u where w: "w = Inr u"
    by (cases w) (auto simp: pop_def Let_def)
  from length_bubble_down [of "compare h" "swap (data h) 0 ?sz" ?sz 0] bd
  have ly: "length ys = length (data h)" by simp
  with False have yne: "ys \<noteq> []" by auto
  from r False bd w yne have h': "h' = h\<lparr>data := butlast ys\<rparr>"
    by (simp add: pop_def Let_def array_pop_def)
  from hp have "heap_upto (compare h) (data h) (length (data h))"
    by (simp add: heap_property_upto)
  from bubble_down_heap [OF c down_inv_root [OF this False] _ bd [unfolded w]]
  have "heap_upto (compare h) ys ?sz" by simp
  have "heap_upto (compare h) (butlast ys) (length (butlast ys))"
    unfolding heap_upto_def
  proof (intro allI impI)
    fix i
    assume i: "0 < i \<and> i < length (butlast ys)"
    then have "(i - 1) div 2 < length (butlast ys)" by arith
    with i have "butlast ys ! i = ys ! i" "butlast ys ! ((i - 1) div 2) = ys ! ((i - 1) div 2)"
      by (simp_all add: nth_butlast)
    with \<open>heap_upto (compare h) ys ?sz\<close> i ly
    show "not_better (compare h) (butlast ys ! i) (butlast ys ! ((i - 1) div 2))"
      unfolding heap_upto_def by simp
  qed
  with h' show ?thesis by (simp add: heap_property_upto)
qed

lemma push_heap:
  assumes c: "consistent (compare h)" and hp: "heap_property (compare h) (data h)"
    and r: "push h vs = (h', Inr n)"
  shows "heap_property (compare h') (data h')"
proof -
  obtain ys w where pv: "push_values (compare h) (data h) vs = (ys, w)"
    by (cases "push_values (compare h) (data h) vs")
  with r obtain u where w: "w = Inr u"
    by (cases w) (auto simp: push_def)
  from r pv w have h': "h' = h\<lparr>data := ys\<rparr>"
    by (simp add: push_def)
  from hp have "heap_upto (compare h) (data h) (length (data h))"
    by (simp add: heap_property_upto)
  from push_values_heap [OF c this pv [unfolded w]] h' show ?thesis
    by (simp add: heap_property_upto)
qed

lemma perform_heap:
  "consistent (compare h) \<Longrightarrow> heap_property (compare h) (data h) \<Longrightarrow>
   perform h ops = (h', Inr u) \<Longrightarrow>
   heap_property (compare h') (data h') \<and> compare h' = compare h"
proof (induction ops arbitrary: h)
  case Nil
  then show ?case by simp
next
  case (Cons op ops)
  show ?case
  proof (cases op)
    case (Push vs)
    obtain h1 w where p: "push h vs = (h1, w)" by (cases "push h vs")
    with Cons.prems(3) Push obtain n where w: "w = Inr n" and rest: "perform h1 ops = (h', Inr u)"
      by (cases w) auto
    from p have ch: "compare h1 = compare h" using compare_push [of h vs] by simp
    from push_heap [OF Cons.prems(1,2) p [unfolded w]] have "heap_property (compare h1) (data h1)" .
    from Cons.IH [OF _ this rest] Cons.prems(1) ch show ?thesis by auto
  next
    case Pop
    obtain h1 w where p: "pop h = (h1, w)" by (cases "pop h")
    with Cons.prems(3) Pop obtain v where w: "w = Inr v" and rest: "perform h1 ops = (h', Inr u)"
      by (cases w) auto
    from p have ch: "compare h1 = compare h" using compare_pop [of h] by simp
    from pop_heap [OF Cons.prems(1,2) p [unfolded w]] have "heap_property (compare h1) (data h1)" .
    from Cons.IH [OF _ this rest] Cons.prems(1) ch show ?thesis by auto
  qed
qed

section \<open>What pop returns\<close>

lemma pop_empty: "isEmpty h \<Longrightarrow> pop h = (h, Inr None)"
  by (simp add: pop_def isEmpty_def)

lemma pop_nonempty:
  assumes ne: "\<not> isEmpty h"
  obtains ys w where
    "bubble_down (compare h) (swap (data h) 0 (length (data h) - 1)) (length (data h) - 1) 0 = (ys, w)"
    "length ys = length (data h)" "last ys = data h ! 0" "mset ys = mset (data h)"
    "pop h = (case w of Inl e \<Rightarrow> (h\<lparr>data := ys\<rparr>, Inl e)
                       | Inr u \<Rightarrow> (h\<lparr>data := butlast ys\<rparr>, Inr (Some (last ys))))"
proof -
  let ?sz = "length (data h) - 1"
  let ?sw = "swap (data h) 0 ?sz"
  from ne have d: "data h \<noteq> []" by (simp add: isEmpty_def)
  then have z: "0 < length (data h)" "?sz < length (data h)" by simp_all
  obtain ys w where bd: "bubble_down (compare h) ?sw ?sz 0 = (ys, w)"
    by (cases "bubble_down (compare h) ?sw ?sz 0")
  from length_bubble_down [of "compare h" ?sw ?sz 0] bd
  have ly: "length ys = length (data h)" by simp
  with d have yne: "ys \<noteq> []" by auto
  from bubble_down_beyond [of ?sz ?sw ?sz "compare h" 0] bd z
  have "ys ! ?sz = ?sw ! ?sz" by simp
  also from z have "\<dots> = data h ! 0" by (simp add: nth_swap)
  finally have la: "last ys = data h ! 0"
    using yne ly by (simp add: last_conv_nth)
  from mset_bubble_down [of ?sz ?sw "compare h" 0] bd z
  have ms: "mset ys = mset (data h)" by (simp add: mset_swap)
  from d bd yne have "pop h = (case w of Inl e \<Rightarrow> (h\<lparr>data := ys\<rparr>, Inl e)
                       | Inr u \<Rightarrow> (h\<lparr>data := butlast ys\<rparr>, Inr (Some (last ys))))"
    by (simp add: pop_def Let_def array_pop_def split: sum.splits)
  with bd ly la ms show ?thesis by (rule that)
qed

lemma pop_returns_root:
  assumes ne: "\<not> isEmpty h" and r: "snd (pop h) = Inr v"
  shows "v = Some (data h ! 0) \<and>
         mset (data (fst (pop h))) + {#data h ! 0#} = mset (data h) \<and>
         compare (fst (pop h)) = compare h"
proof -
  from ne obtain ys w where
    "bubble_down (compare h) (swap (data h) 0 (length (data h) - 1)) (length (data h) - 1) 0 = (ys, w)"
    and ly: "length ys = length (data h)" and la: "last ys = data h ! 0"
    and ms: "mset ys = mset (data h)"
    and p: "pop h = (case w of Inl e \<Rightarrow> (h\<lparr>data := ys\<rparr>, Inl e)
                       | Inr u \<Rightarrow> (h\<lparr>data := butlast ys\<rparr>, Inr (Some (last ys))))"
    by (rule pop_nonempty)
  from ne ly have yne: "ys \<noteq> []" by (auto simp: isEmpty_def)
  from r p obtain u where w: "w = Inr u" by (cases w) auto
  from yne have "mset (butlast ys) + {#last ys#} = mset ys"
    by (metis append_butlast_last_id mset.simps(2) mset_append mset.simps(1) add.commute union_mset_add_mset_left empty_neutral(1))
  with p w r la ms show ?thesis by simp
qed

lemma root_max:
  assumes c: "consistent cmp" and h: "heap_upto cmp xs (length xs)"
  shows "i < length xs \<Longrightarrow> not_better cmp (xs ! i) (xs ! 0)"
proof (induction i rule: less_induct)
  case (less i)
  show ?case
  proof (cases "i = 0")
    case True
    with not_better_refl [OF c] show ?thesis by simp
  next
    case False
    then have "(i - 1) div 2 < i" by arith
    with less have "not_better cmp (xs ! ((i - 1) div 2)) (xs ! 0)" by simp
    moreover from h False less.prems have "not_better cmp (xs ! i) (xs ! ((i - 1) div 2))"
      unfolding heap_upto_def by simp
    ultimately show ?thesis by (rule not_better_trans [OF c, rotated])
  qed
qed

lemma root_maximum:
  assumes "consistent cmp" and "heap_property cmp xs" and "y \<in> set xs"
  shows "\<not> negative (cmp y (xs ! 0))"
proof -
  from assms(3) obtain i where "i < length xs" "xs ! i = y"
    by (auto simp: in_set_conv_nth)
  with root_max [OF assms(1) assms(2) [unfolded heap_property_upto], of i] show ?thesis
    by (simp add: not_better_def)
qed



section \<open>A comparison function that never raises\<close>

lemma bubble_down_completes:
  "\<forall>a b. \<exists>n. cmp a b = Inr n \<Longrightarrow> snd (bubble_down cmp xs n k) = Inr ()"
proof (induction cmp xs n k rule: bubble_down.induct)
  case (1 cmp array sz parent)
  show ?case
  proof (cases "2 * parent + 1 < sz")
    case False
    then show ?thesis by (simp add: bubble_down_unfold)
  next
    case True
    from "1.prems" obtain c where "cmp (array ! (2 * parent + 1)) (array ! (2 * parent + 2)) = Inr c"
      by blast
    then have "\<exists>g. greatestChild cmp array sz (2 * parent + 1) (2 * parent + 2) = Inr g"
      by (simp add: greatestChild_def)
    then obtain g where g: "greatestChild cmp array sz (2 * parent + 1) (2 * parent + 2) = Inr g" ..
    from "1.prems" obtain m where m: "cmp (array ! g) (array ! parent) = Inr m"
      by blast
    show ?thesis
    proof (cases "m < 0")
      case neg: True
      from "1.IH" [OF refl refl _ _ m neg "1.prems"] True g
      have "snd (bubble_down cmp (swap array parent g) sz g) = Inr ()" by simp
      with True g m neg show ?thesis
        by (simp add: bubble_down_unfold [of cmp array sz parent])
    next
      case False
      with True g m show ?thesis
        by (simp add: bubble_down_unfold [of cmp array sz parent])
    qed
  qed
qed




lemma pop_completes:
  "\<forall>a b. \<exists>n. compare h a b = Inr n \<Longrightarrow> \<exists>v. snd (pop h) = Inr v"
  using bubble_down_completes [of "compare h" "swap (data h) 0 (length (data h) - 1)" "length (data h) - 1" 0]
  by (cases "bubble_down (compare h) (swap (data h) 0 (length (data h) - 1)) (length (data h) - 1) 0")
     (auto simp: pop_def Let_def array_pop_def)

section \<open>pop depends on the comparisons of the stored values only\<close>

lemma set_swap: "a < length xs \<Longrightarrow> b < length xs \<Longrightarrow> set (swap xs a b) = set xs"
  using mset_swap [of a xs b] by (metis set_mset_mset)

lemma bubble_down_agree:
  "\<forall>a\<in>set xs. \<forall>b\<in>set xs. c1 a b = c2 a b \<Longrightarrow> n \<le> length xs \<Longrightarrow>
   bubble_down c1 xs n k = bubble_down c2 xs n k"
proof (induction c1 xs n k rule: bubble_down.induct)
  case (1 cmp array sz parent)
  note agree = "1.prems"(1) and sz = "1.prems"(2)
  show ?case
  proof (cases "2 * parent + 1 < sz")
    case False
    then show ?thesis by (simp add: bubble_down_unfold)
  next
    case True
    with sz have inl: "array ! (2 * parent + 1) \<in> set array" and inp: "array ! parent \<in> set array"
      by simp_all
    have gc: "greatestChild cmp array sz (2 * parent + 1) (2 * parent + 2) =
              greatestChild c2 array sz (2 * parent + 1) (2 * parent + 2)"
    proof (cases "2 * parent + 2 < sz")
      case False
      then show ?thesis by (simp add: greatestChild_def)
    next
      case r: True
      with sz have "array ! (2 * parent + 2) \<in> set array" by simp
      with inl agree show ?thesis by (simp add: greatestChild_def)
    qed
    show ?thesis
    proof (cases "greatestChild cmp array sz (2 * parent + 1) (2 * parent + 2)")
      case (Inl e)
      with gc have "greatestChild c2 array sz (2 * parent + 1) (2 * parent + 2) = Inl e" by simp
      with Inl True show ?thesis by (simp add: bubble_down_unfold)
    next
      case (Inr g)
      with gc have g2: "greatestChild c2 array sz (2 * parent + 1) (2 * parent + 2) = Inr g" by simp
      from greatestChild_range [OF Inr True] have g: "g < sz" "parent < g" by auto
      with sz have "array ! g \<in> set array" by simp
      with inp agree have eq: "c2 (array ! g) (array ! parent) = cmp (array ! g) (array ! parent)"
        by simp
      show ?thesis
      proof (cases "cmp (array ! g) (array ! parent)")
        case (Inl e)
        with eq have "c2 (array ! g) (array ! parent) = Inl e" by simp
        with Inl Inr g2 True show ?thesis by (simp add: bubble_down_unfold)
      next
        case m: (Inr m)
        with eq have m2: "c2 (array ! g) (array ! parent) = Inr m" by simp
        show ?thesis
        proof (cases "m < 0")
          case neg: True
          from g sz have "set (swap array parent g) = set array"
            by (simp add: set_swap)
          with "1.IH" [OF refl refl _ _ m neg] True Inr agree sz
          have "bubble_down cmp (swap array parent g) sz g = bubble_down c2 (swap array parent g) sz g"
            by simp
          with True Inr g2 m m2 neg show ?thesis
            by (simp add: bubble_down_unfold [of _ array sz parent])
        next
          case False
          with True Inr g2 m m2 show ?thesis
            by (simp add: bubble_down_unfold [of _ array sz parent])
        qed
      qed
    qed
  qed
qed

lemma pop_agree:
  assumes d: "data h' = data h"
    and a: "\<forall>a\<in>set (data h). \<forall>b\<in>set (data h). compare h' a b = compare h a b"
  shows "snd (pop h') = snd (pop h) \<and> data (fst (pop h')) = data (fst (pop h))"
proof (cases "data h = []")
  case True
  with d show ?thesis by (simp add: pop_def)
next
  case False
  let ?sz = "length (data h) - 1"
  from False have "set (swap (data h) 0 ?sz) = set (data h)"
    by (simp add: set_swap)
  with a bubble_down_agree [of "swap (data h) 0 ?sz" "compare h'" "compare h" ?sz 0]
  have "bubble_down (compare h') (swap (data h) 0 ?sz) ?sz 0 =
        bubble_down (compare h) (swap (data h) 0 ?sz) ?sz 0"
    by simp
  with d False show ?thesis
    by (simp add: pop_def Let_def split: prod.splits sum.splits)
qed

section \<open>Pushing one by one, and draining\<close>

lemma push_Nil [simp]: "push h [] = (h, Inr (length (data h)))"
  by (simp add: push_def)



lemma drain_pop_times: "drain h = pop_times h (length (data h))"
proof (induction h rule: drain.induct)
  case (1 h)
  show ?case
  proof (cases "isEmpty h")
    case True
    then show ?thesis by (simp add: drain.simps [of h] isEmpty_def)
  next
    case False
    then obtain n where n: "length (data h) = Suc n"
      by (cases "data h") (simp_all add: isEmpty_def)
    obtain h1 r where p: "pop h = (h1, r)" by (cases "pop h")
    show ?thesis
    proof (cases r)
      case (Inl e)
      with False p n show ?thesis by (simp add: drain.simps [of h])
    next
      case (Inr v)
      from pop_length [OF False, of v] p Inr n have "length (data h1) = n"
        by (simp add: length_heap_def)
      with "1.IH" [OF False p [symmetric] Inr] have "drain h1 = pop_times h1 n" by simp
      with False p Inr n show ?thesis by (simp add: drain.simps [of h])
    qed
  qed
qed

lemma drain_empties:
  "drain h = (h', ys, Inr ()) \<Longrightarrow> isEmpty h' \<and> length_heap h' = 0 \<and> length ys = length_heap h"
proof (induction h arbitrary: ys rule: drain.induct)
  case (1 h)
  show ?case
  proof (cases "isEmpty h")
    case True
    with "1.prems" show ?thesis by (simp add: drain.simps [of h] isEmpty_def length_heap_def)
  next
    case False
    obtain h1 r where p: "pop h = (h1, r)" by (cases "pop h")
    from False p "1.prems" obtain v where r: "r = Inr v"
      by (cases r) (simp_all add: drain.simps [of h])
    obtain h2 ys' r' where d: "drain h1 = (h2, ys', r')" by (cases "drain h1") auto
    with False p r "1.prems" have e: "h2 = h'" "ys = v # ys'" "r' = Inr ()"
      by (simp_all add: drain.simps [of h])
    from "1.IH" [OF False p [symmetric] r, of ys'] d e
    have "isEmpty h' \<and> length_heap h' = 0 \<and> length ys' = length_heap h1" by simp
    moreover from pop_length [OF False, of v] p r have "length_heap h1 + 1 = length_heap h" by simp
    ultimately show ?thesis using e by simp
  qed
qed

lemma drain_completes:
  "\<forall>a b. \<exists>n. compare h a b = Inr n \<Longrightarrow> snd (snd (drain h)) = Inr ()"
proof (induction h rule: drain.induct)
  case (1 h)
  show ?case
  proof (cases "isEmpty h")
    case True
    then show ?thesis by (simp add: drain.simps [of h])
  next
    case False
    obtain h1 r where p: "pop h = (h1, r)" by (cases "pop h")
    from pop_completes [OF "1.prems"] p obtain v where r: "r = Inr v" by auto
    from p have "compare h1 = compare h" using compare_pop [of h] by simp
    with "1.IH" [OF False p [symmetric] r] "1.prems" have "snd (snd (drain h1)) = Inr ()" by simp
    with False p r show ?thesis
      by (cases "drain h1") (simp add: drain.simps [of h])
  qed
qed

lemma drain_sorted:
  "consistent (compare h) \<Longrightarrow> heap_property (compare h) (data h) \<Longrightarrow>
   drain h = (h', ys, Inr ()) \<Longrightarrow>
   \<exists>zs. ys = map Some zs \<and> mset zs = mset (data h) \<and>
        sorted_wrt (\<lambda>a b. \<not> negative (compare h b a)) zs"
proof (induction h arbitrary: ys rule: drain.induct)
  case (1 h)
  show ?case
  proof (cases "isEmpty h")
    case True
    with "1.prems"(3) show ?thesis by (simp add: drain.simps [of h] isEmpty_def)
  next
    case False
    obtain h1 r where p: "pop h = (h1, r)" by (cases "pop h")
    from False p "1.prems"(3) obtain v where r: "r = Inr v"
      by (cases r) (simp_all add: drain.simps [of h])
    obtain h2 ys' r' where d: "drain h1 = (h2, ys', r')" by (cases "drain h1") auto
    with False p r "1.prems"(3) have e: "h2 = h'" "ys = v # ys'" "r' = Inr ()"
      by (simp_all add: drain.simps [of h])
    let ?x = "data h ! 0"
    from pop_returns_root [OF False, of v] p r
    have v: "v = Some ?x" and ms: "mset (data h1) + {#?x#} = mset (data h)"
      and c1: "compare h1 = compare h"
      by simp_all
    from pop_heap [OF "1.prems"(1,2) p [unfolded r]] have hp1: "heap_property (compare h1) (data h1)" .
    from "1.IH" [OF False p [symmetric] r _ hp1, of ys'] "1.prems"(1) c1 d e
    obtain zs where zs: "ys' = map Some zs" "mset zs = mset (data h1)"
      "sorted_wrt (\<lambda>a b. \<not> negative (compare h b a)) zs"
      by auto
    have "\<not> negative (compare h b ?x)" if "b \<in> set zs" for b
    proof -
      from that zs(2) have "b \<in># mset (data h1)" by (metis set_mset_mset)
      with ms have "b \<in># mset (data h)" by (metis union_iff)
      then have "b \<in> set (data h)" by simp
      from root_maximum [OF "1.prems"(1,2) this] show ?thesis .
    qed
    with zs(3) have "sorted_wrt (\<lambda>a b. \<not> negative (compare h b a)) (?x # zs)" by simp
    moreover from zs(2) ms have "mset (?x # zs) = mset (data h)" by simp
    moreover from e v zs(1) have "ys = map Some (?x # zs)" by simp
    ultimately show ?thesis by blast
  qed
qed

lemma array_from_nth:
  "array_from items mapFn thisArg = map (\<lambda>k. mapFn thisArg (items ! k) k) [0..<length items]"
  by (rule nth_equalityI) (simp_all add: array_from_def)

section \<open>Mutations of one heap object leave a separate one alone\<close>

lemma separate_sym: "separate m a b \<Longrightarrow> separate m b a"
  by (auto simp: separate_def)

lemma write_data_frame:
  "separate m a b \<Longrightarrow>
   separate (write_data m a xs) a b \<and> heap_value (write_data m a xs) b = heap_value m b"
  by (simp add: separate_def write_data_def heap_value_def)

lemma mutate_frame:
  "separate m a b \<Longrightarrow> separate (mutate m a x) a b \<and> heap_value (mutate m a x) b = heap_value m b"
proof (cases x)
  case (DoPush vs)
  assume "separate m a b"
  from write_data_frame [OF this] DoPush show ?thesis
    by (simp add: obj_push_def split: prod.splits)
next
  case DoPop
  assume "separate m a b"
  from write_data_frame [OF this] DoPop show ?thesis
    by (simp add: obj_pop_def split: prod.splits)
next
  case DoClear
  assume "separate m a b"
  with DoClear show ?thesis
    by (auto simp: separate_def obj_clear_def alloc_array_def heap_value_def)
qed

lemma mutate_all_frame:
  "separate m a b \<Longrightarrow>
   separate (mutate_all m a xs) a b \<and> heap_value (mutate_all m a xs) b = heap_value m b"
proof (induction xs arbitrary: m)
  case Nil
  then show ?case by simp
next
  case (Cons x xs)
  from mutate_frame [OF Cons.prems, of x] Cons.IH [of "mutate m a x"] show ?case
    by simp
qed

lemma obj_from_heap_copy:
  assumes s: "src < lim m" and d: "data_ref (objects m src) < lim m"
  shows "obj_from_heap m src None =
           (m\<lparr>arrays := (arrays m)(lim m := [], lim m + 2 := arrays m (data_ref (objects m src))),
              objects := (objects m)(lim m + 1 :=
                 \<lparr>data_ref = lim m + 2, compare_fn = compare_fn (objects m src)\<rparr>),
              lim := lim m + 3\<rparr>,
            Inr (lim m + 1))"
  using s d
  by (simp add: obj_from_heap_def obj_new_def alloc_array_def alloc_object_def obj_push_def
      heap_value_def write_data_def Let_def fun_upd_twist)

lemma consistent_default: "consistent (default_compare :: ('a::linorder, 'e) comparator)"
  unfolding consistent_def default_compare_def descend_def negative_def
  by (auto split: if_splits)

section \<open>The repository's tests, run on the model\<close>

text \<open>
  Expected values of \<^verbatim>\<open>binary_heap_test.ts\<close>: the default ordering, the two edge
  cases with values that compare equal, edge case 1 and the README example.
\<close>

lemma test_default_descend:
  "fst (snd (drain (fst (push (new_BinaryHeap (default_compare :: (int, unit) comparator))
      [- 10, 9, - 1, 100, 9, 1, 0, 9, - 100, 10, - 9])))) =
   map Some [100, 10, 9, 9, 9, 1, 0, - 1, - 9, - 10, - 100]"
  by code_simp

lemma test_edge_case_1:
  "fst (snd (drain (fst (perform (new_BinaryHeap ascend_compare)
      [Push [4, 2, 8, 1, 10, 7, 3, 6, 5], Pop, Push [9]])))) =
   map Some [2, 3, 4, 5, 6, 7, 8, 9, 10]"
  by code_simp

lemma test_edge_case_2:
  "fst (snd (drain (fst (push (new_BinaryHeap ascend_x) [(0, 1), (0, 2), (0, 3)])))) =
   map Some [(0, 1), (0, 3), (0, 2)]"
  by code_simp

lemma test_edge_case_3:
  "fst (snd (drain (fst (push (new_BinaryHeap ascend_x)
      [(0, 1), (1, 2), (1, 3), (2, 4), (2, 5), (2, 6), (2, 7)])))) =
   map Some [(0, 1), (1, 2), (1, 3), (2, 5), (2, 4), (2, 6), (2, 7)]"
  by code_simp

lemma test_readme:
  "peek (fst (push (new_BinaryHeap (default_compare :: (int, unit) comparator)) [4, 1, 3, 5, 2])) = Some 5 \<and>
   snd (pop (fst (push (new_BinaryHeap (default_compare :: (int, unit) comparator)) [4, 1, 3, 5, 2]))) =
     Inr (Some 5) \<and>
   fst (snd (drain (fst (pop (fst (push (new_BinaryHeap (default_compare :: (int, unit) comparator))
     [4, 1, 3, 5, 2])))))) = map Some [4, 3, 2, 1]"
  by code_simp

section \<open>The claims\<close>

subsection \<open>C1: the heap-order invariant\<close>

text \<open>
  C1, as stated, for every heap and every comparison function: after a sequence of
  push and pop calls that completes without a comparator failure, no non-root
  element compares negative against its parent. It fails on a fresh heap whose
  comparison function always answers \<open>-1\<close>: \<^verbatim>\<open>push(1, 2)\<close> completes and leaves
  \<open>[2, 1]\<close>, where the child \<open>1\<close> compares negative against its parent \<open>2\<close>.
\<close>

theorem heap_order_counterexample:
  "snd (perform (new_BinaryHeap always_negative) [Push [1, 2]]) = Inr () \<and>
   data (fst (perform (new_BinaryHeap always_negative) [Push [1, 2]])) = [2, 1] \<and>
   \<not> heap_property always_negative [2, 1]"
  by code_simp

text \<open>
  C1, amended: when the comparison function orders the values consistently and the
  heap property holds before the first call (as it does on a fresh heap), then after
  every sequence of push and pop calls that completes without a comparator failure
  the heap property holds.
\<close>

theorem heap_order_kept:
  assumes "consistent (compare h)" and "heap_property (compare h) (data h)"
    and "snd (perform h ops) = Inr u"
  shows "heap_property (compare (fst (perform h ops))) (data (fst (perform h ops)))"
  using perform_heap [OF assms(1,2), of ops "fst (perform h ops)" u] assms(3)
  by (cases "perform h ops") auto

theorem heap_order_kept_witness:
  "consistent (default_compare :: (int, unit) comparator) \<and>
   heap_property (compare (new_BinaryHeap (default_compare :: (int, unit) comparator)))
     (data (new_BinaryHeap (default_compare :: (int, unit) comparator))) \<and>
   snd (perform (new_BinaryHeap (default_compare :: (int, unit) comparator))
          [Push [4, 1, 3, 5, 2], Pop, Push [9], Pop]) = Inr () \<and>
   data (fst (perform (new_BinaryHeap (default_compare :: (int, unit) comparator))
          [Push [4, 1, 3, 5, 2], Pop, Push [9], Pop])) = [4, 2, 3, 1] \<and>
   heap_property
     (compare (fst (perform (new_BinaryHeap (default_compare :: (int, unit) comparator))
          [Push [4, 1, 3, 5, 2], Pop, Push [9], Pop])))
     (data (fst (perform (new_BinaryHeap (default_compare :: (int, unit) comparator))
          [Push [4, 1, 3, 5, 2], Pop, Push [9], Pop])))"
proof -
  let ?h = "new_BinaryHeap (default_compare :: (int, unit) comparator)"
  let ?ops = "[Push [4, 1, 3, 5, 2], Pop, Push [9], Pop]"
  have c: "consistent (compare ?h)"
    by (simp add: new_BinaryHeap_def consistent_default)
  have hp: "heap_property (compare ?h) (data ?h)"
    by (simp add: new_BinaryHeap_def heap_property_def)
  have run: "snd (perform ?h ?ops) = Inr ()"
    by code_simp
  have d: "data (fst (perform ?h ?ops)) = [4, 2, 3, 1]"
    by code_simp
  from heap_order_kept [OF c hp run] c hp run d show ?thesis
    by (simp add: new_BinaryHeap_def consistent_default)
qed

subsection \<open>C2: what pop returns\<close>

text \<open>
  C2, as stated, for every heap: \<^verbatim>\<open>pop()\<close> on an empty heap returns \<^verbatim>\<open>undefined\<close>
  without raising; on a non-empty heap it removes and returns the element at index
  \<open>0\<close>, which is the maximum under the comparison function when the heap property
  held. Two inputs contradict the second half. A \<^verbatim>\<open>pop()\<close> that a comparator failure
  aborts returns and removes nothing (\<open>[5, 4, 3]\<close>, a comparison function that raises
  on \<open>(4, 3)\<close>). And the heap property alone does not make the root a maximum: with
  a comparison function that answers \<open>-1\<close> on \<open>(3, 0)\<close> and \<open>0\<close> otherwise, \<open>[0, 1, 2, 3]\<close>
  has the heap property, \<^verbatim>\<open>pop()\<close> returns \<open>0\<close>, and \<open>3\<close> compares negative against it.
\<close>

theorem pop_result_counterexample:
  "(\<not> isEmpty \<lparr>data = [5, 4, 3], compare = fails_on_4_3\<rparr> \<and>
    snd (pop \<lparr>data = [5, 4, 3], compare = fails_on_4_3\<rparr>) = Inl ''boom'' \<and>
    data (fst (pop \<lparr>data = [5, 4, 3], compare = fails_on_4_3\<rparr>)) = [3, 4, 5]) \<and>
   (heap_property prefers_3_to_0 [0, 1, 2, 3] \<and>
    snd (pop \<lparr>data = [0, 1, 2, 3], compare = prefers_3_to_0\<rparr>) = Inr (Some 0) \<and>
    3 \<in> set [0, 1, 2, 3 :: int] \<and>
    negative (prefers_3_to_0 3 0))"
  by code_simp

text \<open>
  C2, amended: \<^verbatim>\<open>pop()\<close> on an empty heap returns \<^verbatim>\<open>undefined\<close> without raising and
  leaves the heap as it is. On a non-empty heap, a \<^verbatim>\<open>pop()\<close> that completes without
  comparator failure returns the element that was at index \<open>0\<close> (what \<^verbatim>\<open>peek()\<close>
  showed) and removes exactly that element. When the heap property held beforehand
  and the comparison function orders the values consistently, no element of the
  heap compares negative against that element: it is a maximum.
\<close>

theorem pop_result:
  "(isEmpty h \<longrightarrow> pop h = (h, Inr None)) \<and>
   (\<not> isEmpty h \<and> snd (pop h) = Inr v \<longrightarrow>
      v = Some (data h ! 0) \<and> peek h = v \<and>
      mset (data (fst (pop h))) + {#data h ! 0#} = mset (data h)) \<and>
   (\<not> isEmpty h \<and> consistent (compare h) \<and> heap_property (compare h) (data h) \<longrightarrow>
      (\<forall>y\<in>set (data h). \<not> negative (compare h y (data h ! 0))))"
proof (intro conjI impI)
  assume "isEmpty h"
  then show "pop h = (h, Inr None)" by (rule pop_empty)
next
  assume a: "\<not> isEmpty h \<and> snd (pop h) = Inr v"
  with pop_returns_root [of h v]
  show "v = Some (data h ! 0)" "mset (data (fst (pop h))) + {#data h ! 0#} = mset (data h)"
    by simp_all
  with a show "peek h = v"
    by (cases "data h") (simp_all add: peek_def isEmpty_def)
next
  assume "\<not> isEmpty h \<and> consistent (compare h) \<and> heap_property (compare h) (data h)"
  with root_maximum [of "compare h" "data h"]
  show "\<forall>y\<in>set (data h). \<not> negative (compare h y (data h ! 0))"
    by blast
qed

theorem pop_result_witness:
  "pop \<lparr>data = [], compare = default_compare :: (int, unit) comparator\<rparr> =
     (\<lparr>data = [], compare = default_compare\<rparr>, Inr None) \<and>
   \<not> isEmpty \<lparr>data = [5, 4, 3], compare = default_compare :: (int, unit) comparator\<rparr> \<and>
   snd (pop \<lparr>data = [5, 4, 3], compare = default_compare :: (int, unit) comparator\<rparr>) = Inr (Some 5) \<and>
   data (fst (pop \<lparr>data = [5, 4, 3], compare = default_compare :: (int, unit) comparator\<rparr>)) = [4, 3] \<and>
   consistent (default_compare :: (int, unit) comparator) \<and>
   heap_property (default_compare :: (int, unit) comparator) [5, 4, 3] \<and>
   \<not> negative ((default_compare :: (int, unit) comparator) 4 5) \<and>
   \<not> negative ((default_compare :: (int, unit) comparator) 3 5)"
proof -
  let ?e = "\<lparr>data = [], compare = default_compare :: (int, unit) comparator\<rparr>"
  let ?h = "\<lparr>data = [5, 4, 3], compare = default_compare :: (int, unit) comparator\<rparr>"
  have e: "isEmpty ?e" by (simp add: isEmpty_def)
  have n: "\<not> isEmpty ?h" by (simp add: isEmpty_def)
  have p: "snd (pop ?h) = Inr (Some 5)" by code_simp
  have d: "data (fst (pop ?h)) = [4, 3]" by code_simp
  have hp: "heap_property (default_compare :: (int, unit) comparator) [5, 4, 3]" by code_simp
  from pop_result [of ?e] e have 1: "pop ?e = (?e, Inr None)" by blast
  from pop_result [of ?h "Some 5"] n p hp consistent_default [where 'a = int and 'e = unit]
  have 2: "\<forall>y\<in>set (data ?h). \<not> negative (compare ?h y (data ?h ! 0))" by simp
  from 1 2 n p d hp consistent_default [where 'a = int and 'e = unit] show ?thesis
    by simp
qed

subsection \<open>C3: lengths after push and pop\<close>




subsection \<open>C4: from on a raw sequence against pushing one by one\<close>



subsection \<open>C5: drain and the async iterator\<close>

text \<open>
  C5, as stated, for every heap: \<^verbatim>\<open>drain()\<close> yields the values of repeated \<^verbatim>\<open>pop()\<close>
  calls, in best-first order, and empties the heap; iterating the heap does the
  same. The order is not best-first for every heap. A \<^verbatim>\<open>pop()\<close> that a comparator
  failure aborted leaves \<open>[5, 4, 3]\<close> as \<open>[3, 4, 5]\<close>; draining that heap completes and
  yields \<open>3, 5, 4\<close>, although \<open>5\<close> compares negative against \<open>3\<close>.
\<close>

theorem drain_order_counterexample:
  "snd (push (new_BinaryHeap fails_on_4_3) [5, 4, 3]) = Inr 3 \<and>
   snd (pop (fst (push (new_BinaryHeap fails_on_4_3) [5, 4, 3]))) = Inl ''boom'' \<and>
   data (fst (pop (fst (push (new_BinaryHeap fails_on_4_3) [5, 4, 3])))) = [3, 4, 5] \<and>
   fst (snd (drain \<lparr>data = [3, 4, 5], compare = fails_on_4_3\<rparr>)) = [Some 3, Some 5, Some 4] \<and>
   snd (snd (drain \<lparr>data = [3, 4, 5], compare = fails_on_4_3\<rparr>)) = Inr () \<and>
   negative (fails_on_4_3 5 3)"
  by code_simp

text \<open>
  C5, amended: for every heap, \<^verbatim>\<open>drain()\<close> yields exactly what \<open>length\<close> successive
  \<^verbatim>\<open>pop()\<close> calls resolve to, and the default async iteration is the same run; on an
  empty heap it yields nothing; when it completes the heap is empty with length
  \<open>0\<close>, and it completes whenever the comparison function never raises. When the
  heap property holds beforehand and the comparison function orders the values
  consistently, a completed drain yields all the elements best first: no value
  compares negative against a value yielded before it.
\<close>

theorem drain_is_repeated_pop:
  "drain h = pop_times h (length_heap h) \<and>
   asyncIterator h = drain h \<and>
   (isEmpty h \<longrightarrow> drain h = (h, [], Inr ())) \<and>
   (snd (snd (drain h)) = Inr () \<longrightarrow>
      isEmpty (fst (drain h)) \<and> length_heap (fst (drain h)) = 0 \<and>
      length (fst (snd (drain h))) = length_heap h) \<and>
   ((\<forall>a b. \<exists>n. compare h a b = Inr n) \<longrightarrow> snd (snd (drain h)) = Inr ()) \<and>
   (consistent (compare h) \<and> heap_property (compare h) (data h) \<and> snd (snd (drain h)) = Inr () \<longrightarrow>
      (\<exists>zs. fst (snd (drain h)) = map Some zs \<and> mset zs = mset (data h) \<and>
            sorted_wrt (\<lambda>a b. \<not> negative (compare h b a)) zs))"
proof (intro conjI impI)
  show "drain h = pop_times h (length_heap h)"
    by (simp add: drain_pop_times length_heap_def)
  show "asyncIterator h = drain h"
    by (simp add: asyncIterator_def)
next
  assume "isEmpty h"
  then show "drain h = (h, [], Inr ())" by (simp add: drain.simps [of h])
next
  assume c: "snd (snd (drain h)) = Inr ()"
  obtain h' ys r where d: "drain h = (h', ys, r)" by (cases "drain h") auto
  with c drain_empties [of h h' ys]
  show "isEmpty (fst (drain h))" "length_heap (fst (drain h)) = 0"
    "length (fst (snd (drain h))) = length_heap h"
    by simp_all
next
  assume "\<forall>a b. \<exists>n. compare h a b = Inr n"
  then show "snd (snd (drain h)) = Inr ()" by (rule drain_completes)
next
  assume a: "consistent (compare h) \<and> heap_property (compare h) (data h) \<and> snd (snd (drain h)) = Inr ()"
  obtain h' ys r where d: "drain h = (h', ys, r)" by (cases "drain h") auto
  with a drain_sorted [of h h' ys]
  show "\<exists>zs. fst (snd (drain h)) = map Some zs \<and> mset zs = mset (data h) \<and>
            sorted_wrt (\<lambda>a b. \<not> negative (compare h b a)) zs"
    by simp
qed

theorem drain_is_repeated_pop_witness:
  "consistent (default_compare :: (int, unit) comparator) \<and>
   heap_property (default_compare :: (int, unit) comparator) [5, 4, 3, 1, 2] \<and>
   fst (snd (drain \<lparr>data = [5, 4, 3, 1, 2], compare = default_compare :: (int, unit) comparator\<rparr>)) =
     [Some 5, Some 4, Some 3, Some 2, Some 1] \<and>
   fst (snd (pop_times \<lparr>data = [5, 4, 3, 1, 2], compare = default_compare :: (int, unit) comparator\<rparr> 5)) =
     [Some 5, Some 4, Some 3, Some 2, Some 1] \<and>
   fst (snd (asyncIterator \<lparr>data = [5, 4, 3, 1, 2], compare = default_compare :: (int, unit) comparator\<rparr>)) =
     [Some 5, Some 4, Some 3, Some 2, Some 1] \<and>
   snd (snd (drain \<lparr>data = [5, 4, 3, 1, 2], compare = default_compare :: (int, unit) comparator\<rparr>)) = Inr () \<and>
   isEmpty (fst (drain \<lparr>data = [5, 4, 3, 1, 2], compare = default_compare :: (int, unit) comparator\<rparr>)) \<and>
   length_heap (fst (drain \<lparr>data = [5, 4, 3, 1, 2], compare = default_compare :: (int, unit) comparator\<rparr>)) = 0 \<and>
   sorted_wrt (\<lambda>a b. \<not> negative ((default_compare :: (int, unit) comparator) b a)) [5, 4, 3, 2, 1] \<and>
   isEmpty \<lparr>data = [], compare = default_compare :: (int, unit) comparator\<rparr> \<and>
   fst (snd (drain \<lparr>data = [], compare = default_compare :: (int, unit) comparator\<rparr>)) = []"
proof -
  let ?h = "\<lparr>data = [5, 4, 3, 1, 2], compare = default_compare :: (int, unit) comparator\<rparr>"
  let ?e = "\<lparr>data = [], compare = default_compare :: (int, unit) comparator\<rparr>"
  have c: "consistent (compare ?h)" by (simp add: consistent_default)
  have hp: "heap_property (compare ?h) (data ?h)" by code_simp
  have tot: "\<forall>a b. \<exists>n. compare ?h a b = Inr n" by (simp add: default_compare_def)
  have y: "fst (snd (drain ?h)) = [Some 5, Some 4, Some 3, Some 2, Some 1]" by code_simp
  have e: "isEmpty ?e" by (simp add: isEmpty_def)
  note t = drain_is_repeated_pop [of ?h]
  from t tot have fin: "snd (snd (drain ?h)) = Inr ()" by blast
  with t have emp: "isEmpty (fst (drain ?h))" "length_heap (fst (drain ?h)) = 0" by blast+
  have l5: "length_heap ?h = 5" by (simp add: length_heap_def)
  from t have "drain ?h = pop_times ?h (length_heap ?h)" by blast
  with l5 y have pt: "fst (snd (pop_times ?h 5)) = [Some 5, Some 4, Some 3, Some 2, Some 1]"
    by metis
  from t y have ai: "fst (snd (asyncIterator ?h)) = [Some 5, Some 4, Some 3, Some 2, Some 1]"
    by metis
  from t c hp fin obtain zs where "fst (snd (drain ?h)) = map Some zs"
    "sorted_wrt (\<lambda>a b. \<not> negative (compare ?h b a)) zs" by blast
  with y have so: "sorted_wrt (\<lambda>a b. \<not> negative ((default_compare :: (int, unit) comparator) b a)) [5, 4, 3, 2, 1]"
    by (cases zs) (auto simp: map_eq_Cons_conv)
  from drain_is_repeated_pop [of ?e] e have "drain ?e = (?e, [], Inr ())" by blast
  then have de: "fst (snd (drain ?e)) = []" by simp
  from c hp y fin emp pt ai so e de show ?thesis by simp
qed

subsection \<open>C6: a comparator failure during pop\<close>



subsection \<open>C7: the constructor's argument check\<close>

text \<open>
  C7: for every value in the argument position that is not a function, the
  constructor itself raises a \<^verbatim>\<open>TypeError\<close> and yields no heap; with a function, or
  with the argument absent, it yields an empty heap with that function, or with
  the default comparison function. (An explicit \<^verbatim>\<open>undefined\<close> is an absent argument
  to the default parameter; \<^verbatim>\<open>null\<close> is not, and raises.)
\<close>

theorem constructor_checks_compare:
  "constructor (NonCallable v :: ('a::ord, 'e) compare_arg) =
     Inl (TypeError ''Cannot construct a BinaryHeap: the 'compare' parameter is not a function, did you mean to call BinaryHeap.from?'') \<and>
   (\<exists>h. constructor (Callable f :: ('a::ord, 'e) compare_arg) = Inr h \<and>
        compare h = f \<and> data h = [] \<and> isEmpty h \<and> length_heap h = 0 \<and> peek h = None) \<and>
   (\<exists>h. constructor (Omitted :: ('a::ord, 'e) compare_arg) = Inr h \<and>
        compare h = default_compare \<and> data h = [] \<and> isEmpty h \<and> length_heap h = 0 \<and> peek h = None)"
  by (simp add: constructor_def isEmpty_def length_heap_def peek_def)

subsection \<open>C8: copying a heap\<close>

text \<open>
  C8: for an allocated source heap, \<^verbatim>\<open>from\<close> with neither \<open>compare\<close> nor \<open>map\<close>
  resolves to a new heap object; the source object, its array and so its length
  are as before; the copy has the source's elements and comparison function in an
  array of its own; whatever sequence of \<^verbatim>\<open>push\<close>, \<^verbatim>\<open>pop\<close> and \<^verbatim>\<open>clear\<close> calls is
  then made on the copy, the source heap is unchanged, and the other way round.
\<close>

theorem from_heap_is_independent_copy:
  assumes "src < lim m" and "data_ref (objects m src) < lim m"
  shows "\<exists>copy.
     snd (obj_from_heap m src (None :: ('a::ord, 'e, 'v) from_options option)) = Inr copy \<and>
     obj_from_heap m src
       (Some (\<lparr>opt_compare = None, opt_map = None, opt_thisArg = t\<rparr> :: ('a, 'e, 'v) from_options)) =
       obj_from_heap m src (None :: ('a, 'e, 'v) from_options option) \<and>
     heap_value (fst (obj_from_heap m src (None :: ('a, 'e, 'v) from_options option))) src =
       heap_value m src \<and>
     from_collection (Heap (heap_value m src)) (None :: ('a, 'e, 'v) from_options option) =
       Inr (heap_value (fst (obj_from_heap m src (None :: ('a, 'e, 'v) from_options option))) copy) \<and>
     heap_value (fst (obj_from_heap m src (None :: ('a, 'e, 'v) from_options option))) copy =
       heap_value m src \<and>
     copy \<noteq> src \<and>
     data_ref (objects (fst (obj_from_heap m src (None :: ('a, 'e, 'v) from_options option))) copy) \<noteq>
       data_ref (objects (fst (obj_from_heap m src (None :: ('a, 'e, 'v) from_options option))) src) \<and>
     (\<forall>muts. heap_value
        (mutate_all (fst (obj_from_heap m src (None :: ('a, 'e, 'v) from_options option))) copy muts) src =
        heap_value m src) \<and>
     (\<forall>muts. heap_value
        (mutate_all (fst (obj_from_heap m src (None :: ('a, 'e, 'v) from_options option))) src muts) copy =
        heap_value m src)"
proof -
  let ?none = "None :: ('a, 'e, 'v) from_options option"
  let ?m = "fst (obj_from_heap m src ?none)"
  let ?copy = "lim m + 1"
  note eq = obj_from_heap_copy [OF assms, where 'c = 'v]
  have r: "snd (obj_from_heap m src ?none) = Inr ?copy"
    by (simp add: eq)
  have bag: "obj_from_heap m src
       (Some (\<lparr>opt_compare = None, opt_map = None, opt_thisArg = t\<rparr> :: ('a, 'e, 'v) from_options)) =
       obj_from_heap m src ?none"
    by (simp add: obj_from_heap_def)
  from assms have src: "heap_value ?m src = heap_value m src"
    by (simp add: eq heap_value_def)
  from assms have copy: "heap_value ?m ?copy = heap_value m src"
    by (simp add: eq heap_value_def)
  have fc: "from_collection (Heap (heap_value m src)) ?none = Inr (heap_value m src)"
    by (simp add: from_collection_def new_BinaryHeap_def heap_value_def)
  from assms have sep: "separate ?m ?copy src"
    by (simp add: eq separate_def)
  from mutate_all_frame [OF sep] src
  have f1: "heap_value (mutate_all ?m ?copy muts) src = heap_value m src" for muts
    by simp
  from mutate_all_frame [OF separate_sym [OF sep]] copy
  have f2: "heap_value (mutate_all ?m src muts) ?copy = heap_value m src" for muts
    by simp
  from sep have ne: "?copy \<noteq> src" "data_ref (objects ?m ?copy) \<noteq> data_ref (objects ?m src)"
    by (simp_all add: separate_def)
  from r bag src copy fc ne f1 f2 show ?thesis
    by (intro exI [of _ ?copy]) simp
qed

theorem from_heap_is_independent_copy_witness:
  "(1::nat) < lim one_heap_memory \<and>
   data_ref (objects one_heap_memory 1) < lim one_heap_memory \<and>
   data (heap_value one_heap_memory 1) = [5, 4, 3, 1, 2] \<and>
   snd (obj_from_heap one_heap_memory 1 (None :: (int, unit, unit) from_options option)) = Inr 3 \<and>
   data (heap_value (fst (obj_from_heap one_heap_memory 1 (None :: (int, unit, unit) from_options option))) 3) =
     [5, 4, 3, 1, 2] \<and>
   data (heap_value (mutate_all
           (fst (obj_from_heap one_heap_memory 1 (None :: (int, unit, unit) from_options option))) 3
           [DoPop, DoPush [9], DoPop, DoClear]) 1) = [5, 4, 3, 1, 2] \<and>
   data (heap_value (mutate_all
           (fst (obj_from_heap one_heap_memory 1 (None :: (int, unit, unit) from_options option))) 1
           [DoPop, DoPush [9], DoPop, DoClear]) 3) = [5, 4, 3, 1, 2] \<and>
   data (heap_value (mutate_all
           (fst (obj_from_heap one_heap_memory 1 (None :: (int, unit, unit) from_options option))) 1
           [DoPop, DoPush [9], DoPop]) 1) = [4, 2, 3, 1]"
proof -
  let ?none = "None :: (int, unit, unit) from_options option"
  let ?m = "fst (obj_from_heap one_heap_memory 1 ?none)"
  have a: "(1::nat) < lim one_heap_memory" "data_ref (objects one_heap_memory 1) < lim one_heap_memory"
    by (simp_all add: one_heap_memory_def)
  have d: "data (heap_value one_heap_memory 1) = [5, 4, 3, 1, 2]"
    by (simp add: one_heap_memory_def heap_value_def)
  have r: "snd (obj_from_heap one_heap_memory 1 ?none) = Inr 3"
    by code_simp
  have own: "data (heap_value (mutate_all ?m 1 [DoPop, DoPush [9], DoPop]) 1) = [4, 2, 3, 1]"
    by code_simp
  from from_heap_is_independent_copy [OF a, where 'v = unit]
  obtain copy where c: "snd (obj_from_heap one_heap_memory 1 ?none) = Inr copy"
    and v: "heap_value ?m copy = heap_value one_heap_memory 1"
    and f1: "\<forall>muts. heap_value (mutate_all ?m copy muts) 1 = heap_value one_heap_memory 1"
    and f2: "\<forall>muts. heap_value (mutate_all ?m 1 muts) copy = heap_value one_heap_memory 1"
    by blast
  from c r have c3: "copy = 3" by simp
  from f1 have g1: "heap_value (mutate_all ?m copy [DoPop, DoPush [9], DoPop, DoClear]) 1 =
      heap_value one_heap_memory 1"
    by (rule spec)
  from f2 have g2: "heap_value (mutate_all ?m 1 [DoPop, DoPush [9], DoPop, DoClear]) copy =
      heap_value one_heap_memory 1"
    by (rule spec)
  from a d r own v g1 g2 show ?thesis
    unfolding c3 by (simp only: simp_thms)
qed

subsection \<open>C9: from with a map option\<close>

text \<open>
  C9: \<^verbatim>\<open>from\<close> with a \<open>map\<close> option builds the heap that \<^verbatim>\<open>from\<close> without it builds
  from the sequence of the transformed elements, each obtained by calling the
  transform with the given \<open>thisArg\<close> as receiver, the element and its index in the
  source. From \<open>[4, 2, 7]\<close> with \<^verbatim>\<open>n => n * 2\<close> it resolves to a heap of length \<open>3\<close>
  whose drain yields \<open>14, 8, 4\<close>.
\<close>

theorem from_applies_map:
  "from_collection (Sequence xs) (Some \<lparr>opt_compare = c, opt_map = Some f, opt_thisArg = t\<rparr>) =
     from_collection (Sequence (map (\<lambda>k. f t (xs ! k) k) [0..<length xs]))
       (Some \<lparr>opt_compare = c, opt_map = None, opt_thisArg = None\<rparr>) \<and>
   (\<exists>h :: (int, unit) BinaryHeap.
      from_collection (Sequence [4, 2, 7])
        (Some \<lparr>opt_compare = None, opt_map = Some (\<lambda>this n k. n * 2), opt_thisArg = None :: unit option\<rparr>) = Inr h \<and>
      length_heap h = 3 \<and>
      fst (snd (drain h)) = [Some 14, Some 8, Some 4] \<and>
      snd (snd (drain h)) = Inr ())"
proof
  show "from_collection (Sequence xs) (Some \<lparr>opt_compare = c, opt_map = Some f, opt_thisArg = t\<rparr>) =
     from_collection (Sequence (map (\<lambda>k. f t (xs ! k) k) [0..<length xs]))
       (Some \<lparr>opt_compare = c, opt_map = None, opt_thisArg = None\<rparr>)"
    by (simp add: from_collection_def array_from_nth)
next
  let ?r = "from_collection (Sequence [4, 2, 7])
        (Some \<lparr>opt_compare = None, opt_map = Some (\<lambda>this n k. n * 2), opt_thisArg = None :: unit option\<rparr>)
        :: unit + (int, unit) BinaryHeap"
  have "case ?r of Inl e \<Rightarrow> False
        | Inr h \<Rightarrow> length_heap h = 3 \<and> fst (snd (drain h)) = [Some 14, Some 8, Some 4] \<and>
            snd (snd (drain h)) = Inr ()"
    by code_simp
  then show "\<exists>h :: (int, unit) BinaryHeap. ?r = Inr h \<and> length_heap h = 3 \<and>
      fst (snd (drain h)) = [Some 14, Some 8, Some 4] \<and> snd (snd (drain h)) = Inr ()"
    by (cases ?r) simp_all
qed

theorem from_applies_map_witness:
  "map (\<lambda>k. (case Some (10::int) of Some m \<Rightarrow> m * ([1, 2, 3] ! k) + int k | None \<Rightarrow> [1, 2, 3] ! k))
       [0..<length [1, 2, 3 :: int]] = [10, 21, 32] \<and>
   (case from_collection (Sequence [1, 2, 3])
           (Some \<lparr>opt_compare = None,
                  opt_map = Some (\<lambda>this v k. case this of Some m \<Rightarrow> m * v + int k | None \<Rightarrow> v),
                  opt_thisArg = Some (10::int)\<rparr>) :: unit + (int, unit) BinaryHeap of
      Inl e \<Rightarrow> False
    | Inr h \<Rightarrow> length_heap h = 3 \<and> fst (snd (drain h)) = [Some 32, Some 21, Some 10])"
proof -
  let ?f = "\<lambda>this v k. case this of Some (m::int) \<Rightarrow> m * v + int k | None \<Rightarrow> v"
  have m: "map (\<lambda>k. ?f (Some 10) ([1, 2, 3] ! k) k) [0..<length [1, 2, 3 :: int]] = [10, 21, 32]"
    by code_simp
  have e: "case from_collection (Sequence [10, 21, 32])
                  (Some \<lparr>opt_compare = None, opt_map = None, opt_thisArg = None :: int option\<rparr>)
                :: unit + (int, unit) BinaryHeap of
             Inl e \<Rightarrow> False
           | Inr h \<Rightarrow> length_heap h = 3 \<and> fst (snd (drain h)) = [Some 32, Some 21, Some 10]"
    by code_simp
  from from_applies_map [of "[1, 2, 3]" None ?f "Some 10"]
  have "from_collection (Sequence [1, 2, 3])
          (Some \<lparr>opt_compare = None, opt_map = Some ?f, opt_thisArg = Some 10\<rparr>) =
        (from_collection (Sequence (map (\<lambda>k. ?f (Some 10) ([1, 2, 3] ! k) k) [0..<length [1, 2, 3 :: int]]))
          (Some \<lparr>opt_compare = None, opt_map = None, opt_thisArg = None\<rparr>)
          :: unit + (int, unit) BinaryHeap)"
    by blast
  then have eq: "from_collection (Sequence [1, 2, 3])
          (Some \<lparr>opt_compare = None, opt_map = Some ?f, opt_thisArg = Some 10\<rparr>) =
        (from_collection (Sequence [10, 21, 32])
          (Some \<lparr>opt_compare = None, opt_map = None, opt_thisArg = None :: int option\<rparr>)
          :: unit + (int, unit) BinaryHeap)"
    by (simp only: m)
  show ?thesis
  proof
    show "map (\<lambda>k. (case Some (10::int) of Some m \<Rightarrow> m * ([1, 2, 3] ! k) + int k | None \<Rightarrow> [1, 2, 3] ! k))
       [0..<length [1, 2, 3 :: int]] = [10, 21, 32]"
      by code_simp
    from e show "case from_collection (Sequence [1, 2, 3])
           (Some \<lparr>opt_compare = None, opt_map = Some ?f, opt_thisArg = Some (10::int)\<rparr>)
           :: unit + (int, unit) BinaryHeap of
        Inl e \<Rightarrow> False
      | Inr h \<Rightarrow> length_heap h = 3 \<and> fst (snd (drain h)) = [Some 32, Some 21, Some 10]"
      by (simp only: eq)
  qed
qed

subsection \<open>C10: ties between the two children\<close>

text \<open>
  C10: in the sift-down loop of \<^verbatim>\<open>pop()\<close>, when the right child is below \<open>size\<close>
  and the comparison of the left child with the right child answers exactly \<open>0\<close>,
  \<open>greatestChild\<close> is the left child and the iteration goes on with it. Nothing in
  \<^verbatim>\<open>pop()\<close> is left to chance: its outcome and the array it leaves are determined by
  the array and by the answers of the comparison function on the stored values
  (two heaps with the same array and comparison functions that agree on its
  elements pop alike).
\<close>

theorem left_child_on_tie:
  "(2 * parent + 2 < sz \<and> cmp (array ! (2 * parent + 1)) (array ! (2 * parent + 2)) = Inr 0 \<longrightarrow>
      greatestChild cmp array sz (2 * parent + 1) (2 * parent + 2) = Inr (2 * parent + 1) \<and>
      bubble_down cmp array sz parent =
        (case cmp (array ! (2 * parent + 1)) (array ! parent) of
           Inl e \<Rightarrow> (array, Inl e)
         | Inr c \<Rightarrow>
             if c < 0 then bubble_down cmp (swap array parent (2 * parent + 1)) sz (2 * parent + 1)
             else (array, Inr ()))) \<and>
   (data h' = data h \<and>
    (\<forall>a\<in>set (data h). \<forall>b\<in>set (data h). compare h' a b = compare h a b) \<longrightarrow>
      snd (pop h') = snd (pop h) \<and> data (fst (pop h')) = data (fst (pop h)))"
proof (intro conjI impI)
  assume t: "2 * parent + 2 < sz \<and> cmp (array ! (2 * parent + 1)) (array ! (2 * parent + 2)) = Inr 0"
  then show g: "greatestChild cmp array sz (2 * parent + 1) (2 * parent + 2) = Inr (2 * parent + 1)"
    by (simp add: greatestChild_def)
  from t have "2 * parent + 1 < sz" by simp
  with g show "bubble_down cmp array sz parent =
        (case cmp (array ! (2 * parent + 1)) (array ! parent) of
           Inl e \<Rightarrow> (array, Inl e)
         | Inr c \<Rightarrow>
             if c < 0 then bubble_down cmp (swap array parent (2 * parent + 1)) sz (2 * parent + 1)
             else (array, Inr ()))"
    by (subst bubble_down_unfold) (simp only: if_True sum.case)
next
  assume "data h' = data h \<and>
    (\<forall>a\<in>set (data h). \<forall>b\<in>set (data h). compare h' a b = compare h a b)"
  with pop_agree [of h' h] show "snd (pop h') = snd (pop h)" "data (fst (pop h')) = data (fst (pop h))"
    by blast+
qed

theorem left_child_on_tie_witness:
  "(2 * 0 + 2 < (3::nat) \<and>
    ascend_x ([(0, 4), (0, 2), (0, 3), (0, 1)] ! (2 * 0 + 1))
             ([(0, 4), (0, 2), (0, 3), (0, 1)] ! (2 * 0 + 2)) = Inr 0) \<and>
   greatestChild ascend_x [(0, 4), (0, 2), (0, 3), (0, 1)] 3 (2 * 0 + 1) (2 * 0 + 2) = Inr 1 \<and>
   bubble_down ascend_x [(0, 4), (0, 2), (0, 3), (0, 1)] 3 0 = ([(0, 4), (0, 2), (0, 3), (0, 1)], Inr ()) \<and>
   snd (pop \<lparr>data = [(0, 1), (0, 2), (0, 3), (0, 4)], compare = ascend_x\<rparr>) = Inr (Some (0, 1)) \<and>
   data (fst (pop \<lparr>data = [(0, 1), (0, 2), (0, 3), (0, 4)], compare = ascend_x\<rparr>)) = [(0, 4), (0, 2), (0, 3)]"
proof -
  let ?a = "[(0, 4), (0, 2), (0, 3), (0, 1)] :: (int \<times> int) list"
  let ?h = "\<lparr>data = [(0, 1), (0, 2), (0, 3), (0, 4)], compare = ascend_x\<rparr>"
  have t: "2 * 0 + 2 < (3::nat) \<and> ascend_x (?a ! (2 * 0 + 1)) (?a ! (2 * 0 + 2)) = Inr 0"
    by (simp add: ascend_x_def ascend_def)
  have c: "ascend_x (?a ! (2 * 0 + 1)) (?a ! 0) = Inr 0"
    by (simp add: ascend_x_def ascend_def)
  have p: "snd (pop ?h) = Inr (Some (0, 1))" "data (fst (pop ?h)) = [(0, 4), (0, 2), (0, 3)]"
    by code_simp+
  from left_child_on_tie [of 0 3 ascend_x ?a ?h ?h] t c p show ?thesis
    by simp
qed

end
